theory Spec2Isabelle
  imports Main
begin

section \<open>tHTTP: exit codes (diagnostics.h)\<close>

text \<open>
  Every fatal path of the program ends in \<open>exit(error)\<close> with a member of
  \<open>enum tHTTPError\<close>. A function that may take such a path returns
  \<open>tHTTPError + 'a\<close>, \<open>Inl\<close> carrying the code the process exits with.
\<close>

datatype tHTTPError =
    EXIT_OK
  | EXIT_SOCKET_FAILED
  | EXIT_BIND_FAILED
  | EXIT_LISTEN_FAILED
  | EXIT_SANDBOX_FAILED
  | EXIT_FORK_FAILED
  | EXIT_INVALID_NUMERIC_ENV_VAR
  | EXIT_DONT_USE_ROOT
  | EXIT_FTS_OPEN_FAILED
  | EXIT_FTS_CLOSE_FAILED
  | EXIT_FTS_READ_FAILED
  | EXIT_SYMLINK_IN_WEB_ROOT
  | EXIT_FTS_READ_FAILED_ERR_DNR
  | EXIT_FTS_UNUSUAL_FILE
  | EXIT_CYCLE_IN_WEB_ROOT
  | EXIT_HCREATE_FAILED
  | EXIT_FOPEN_FAILED
  | EXIT_MALLOC_FAILED
  | EXIT_FREAD_FAILED
  | EXIT_HSEARCH_TABLE_FULL
  | EXIT_SETSOCKOPT_FAILED
  | EXIT_SOCKET_READ_FAILED
  | EXIT_NON_GET_REQUEST
  | EXIT_SOCKET_WEIRD_RX_LENGTH
  | EXIT_WEIRD_REQUEST_PATH
  | EXIT_NOTFOUND_NOT_FOUND
  | EXIT_SOCKET_SEND_FAILED
  | EXIT_SOCKET_WEIRD_TX_LENGTH

text \<open>The numeric value of each enumerator, as diagnostics.h assigns it.\<close>

fun exit_code :: "tHTTPError \<Rightarrow> nat" where
  "exit_code EXIT_OK = 0"
| "exit_code EXIT_SOCKET_FAILED = 1"
| "exit_code EXIT_BIND_FAILED = 2"
| "exit_code EXIT_LISTEN_FAILED = 3"
| "exit_code EXIT_SANDBOX_FAILED = 4"
| "exit_code EXIT_FORK_FAILED = 5"
| "exit_code EXIT_INVALID_NUMERIC_ENV_VAR = 6"
| "exit_code EXIT_DONT_USE_ROOT = 7"
| "exit_code EXIT_FTS_OPEN_FAILED = 8"
| "exit_code EXIT_FTS_CLOSE_FAILED = 9"
| "exit_code EXIT_FTS_READ_FAILED = 10"
| "exit_code EXIT_SYMLINK_IN_WEB_ROOT = 11"
| "exit_code EXIT_FTS_READ_FAILED_ERR_DNR = 12"
| "exit_code EXIT_FTS_UNUSUAL_FILE = 13"
| "exit_code EXIT_CYCLE_IN_WEB_ROOT = 14"
| "exit_code EXIT_HCREATE_FAILED = 15"
| "exit_code EXIT_FOPEN_FAILED = 16"
| "exit_code EXIT_MALLOC_FAILED = 17"
| "exit_code EXIT_FREAD_FAILED = 18"
| "exit_code EXIT_HSEARCH_TABLE_FULL = 19"
| "exit_code EXIT_SETSOCKOPT_FAILED = 20"
| "exit_code EXIT_SOCKET_READ_FAILED = 21"
| "exit_code EXIT_NON_GET_REQUEST = 22"
| "exit_code EXIT_SOCKET_WEIRD_RX_LENGTH = 23"
| "exit_code EXIT_WEIRD_REQUEST_PATH = 24"
| "exit_code EXIT_NOTFOUND_NOT_FOUND = 25"
| "exit_code EXIT_SOCKET_SEND_FAILED = 26"
| "exit_code EXIT_SOCKET_WEIRD_TX_LENGTH = 27"

section \<open>Bytes and C strings\<close>

text \<open>
  A \<open>char\<close> of HOL is one byte, so a buffer and a C string are both \<open>string\<close>.
  A C string ends at its first NUL byte: \<open>cstr\<close> is what \<open>strlen\<close>,
  \<open>strncmp\<close> and \<open>strtok_r\<close> see of a buffer.
\<close>

definition NUL :: char where
  "NUL = CHR 0x00"

definition cstr :: "string \<Rightarrow> string" where
  "cstr buf = takeWhile (\<lambda>c. c \<noteq> NUL) buf"

text \<open>The delimiter set \<open>" \r\n\t"\<close> handed to \<open>strtok_r\<close> in main.c.\<close>

definition delimiters :: "char set" where
  "delimiters = {CHR '' '', CHR 0x0D, CHR 0x0A, CHR 0x09}"

text \<open>
  \<open>strtok_r(s, delim, &saveptr)\<close>, first call: skip leading delimiters; if nothing is
  left the result is NULL (\<open>None\<close>), otherwise the token runs up to the next delimiter
  or the end of the C string.
\<close>

definition strtok_r :: "string \<Rightarrow> char set \<Rightarrow> string option" where
  "strtok_r s delim =
     (let s' = dropWhile (\<lambda>c. c \<in> delim) (cstr s)
      in if s' = [] then None else Some (takeWhile (\<lambda>c. c \<notin> delim) s'))"

text \<open>\<open>printf\<close>'s \<open>%zu\<close>: the decimal digits of a size.\<close>

definition digit :: "nat \<Rightarrow> char" where
  "digit d = ''0123456789'' ! d"

fun dec :: "nat \<Rightarrow> string" where
  "dec n = (if n < 10 then [digit n] else dec (n div 10) @ [digit (n mod 10)])"

declare dec.simps [simp del]

section \<open>The connection: read(2) and send(2) as the worker sees them\<close>

text \<open>
  The peer and the kernel are the environment. What they do to one connection is a list
  of events for the successive \<open>read\<close> calls and one for the successive \<open>send\<close> calls.

  \<^item> \<open>RxData bs\<close>: \<open>bs\<close> has arrived; a \<open>read\<close> of at most \<open>n\<close> bytes returns
    the first \<open>n\<close> of them and leaves the rest queued. \<open>RxClose\<close>: the peer has
    closed, \<open>read\<close> returns 0. \<open>RxError\<close>: \<open>read\<close> returns a negative value.
    When the list is used up nothing more arrives: with \<open>SO_RCVTIMEO\<close> set the
    \<open>read\<close> times out, which is a negative return value as well.
  \<^item> \<open>TxAccept k\<close>: this \<open>send\<close> takes at most \<open>k\<close> bytes; \<open>TxError\<close>: it returns a
    negative value. When the list is used up every further \<open>send\<close> takes all it is given.
\<close>

datatype rx_event = RxData string | RxClose | RxError

datatype tx_event = TxAccept nat | TxError

record conn =
  rx :: "rx_event list"
  tx :: "tx_event list"
  transmitted :: string
  rcvtimeo_ok :: bool
  sndtimeo_ok :: bool
  asprintf_ok :: bool

text \<open>
  \<open>read(ns, in_buf + received, max_size - received)\<close>: the return value (as the C
  \<open>ssize_t\<close>), the bytes stored, and the events left.
\<close>

fun sys_read :: "rx_event list \<Rightarrow> nat \<Rightarrow> int \<times> string \<times> rx_event list" where
  "sys_read [] n = (-1, [], [])"
| "sys_read (RxError # es) n = (-1, [], es)"
| "sys_read (RxClose # es) n = (0, [], es)"
| "sys_read (RxData bs # es) n =
     (if length bs \<le> n then (int (length bs), bs, es)
      else (int n, take n bs, RxData (drop n bs) # es))"

lemma sys_read_shorter:
  assumes "(r, bs, es') = sys_read es (m - k)" and "\<not> r < 0" and "r \<noteq> 0" and "k + length bs < m"
  shows "length es' < length es"
proof (cases es)
  case Nil
  with assms show ?thesis by simp
next
  case (Cons e rest)
  with assms show ?thesis
    by (cases e) (auto split: if_splits)
qed

text \<open>
  The \<open>do ... while (received < max_size)\<close> loop of \<open>socket_read\<close> (socket.c). The
  buffer is the list of bytes stored so far, \<open>received\<close> is its length. \<open>Inl ()\<close> is
  the branch \<open>num_read < 0\<close>. The loop ends because every pass uses up an event or fills
  the buffer: a \<open>read\<close> that leaves part of an event queued has filled the buffer.
\<close>

function socket_read_loop :: "rx_event list \<Rightarrow> nat \<Rightarrow> string \<Rightarrow> unit + string \<times> rx_event list" where
  "socket_read_loop es max_size in_buf =
     (case sys_read es (max_size - length in_buf) of (num_read, bs, es') \<Rightarrow>
        if num_read < 0 then Inl ()
        else if num_read = 0 then Inr (in_buf, es')
        else if length (in_buf @ bs) < max_size
          then socket_read_loop es' max_size (in_buf @ bs)
        else Inr (in_buf @ bs, es'))"
  by pat_completeness auto
termination
  by (relation "measure (\<lambda>(es, m, b). length es)") (auto intro: sys_read_shorter)

declare socket_read_loop.simps [simp del]

text \<open>
  \<open>socket_read(ns, min_size, max_size)\<close>: the loop, then the length check. The result
  is the buffer without the NUL terminator the code appends at \<open>in_buf[received]\<close>.
\<close>

definition socket_read :: "conn \<Rightarrow> nat \<Rightarrow> nat \<Rightarrow> tHTTPError + string \<times> conn" where
  "socket_read ns min_size max_size =
     (case socket_read_loop (rx ns) max_size [] of
        Inl _ \<Rightarrow> Inl EXIT_SOCKET_READ_FAILED
      | Inr (in_buf, es) \<Rightarrow>
          if length in_buf < min_size \<or> length in_buf > max_size
          then Inl EXIT_SOCKET_WEIRD_RX_LENGTH
          else Inr (in_buf, ns\<lparr>rx := es\<rparr>))"

text \<open>
  \<open>send(socket, message + sent, message_size - sent, 0)\<close>: the return value and the
  events left. The argument is the part of the message not yet sent.
\<close>

fun sys_send :: "tx_event list \<Rightarrow> string \<Rightarrow> int \<times> tx_event list" where
  "sys_send [] msg = (int (length msg), [])"
| "sys_send (TxError # es) msg = (-1, es)"
| "sys_send (TxAccept k # es) msg = (int (min k (length msg)), es)"

lemma sys_send_shorter:
  assumes "(r, es') = sys_send es (drop k msg)" and "\<not> r < 0" and "r \<noteq> 0"
    and "k + nat r < length msg"
  shows "length es' < length es"
proof (cases es)
  case Nil
  with assms show ?thesis by auto
next
  case (Cons e rest)
  with assms show ?thesis
    by (cases e) (auto split: if_splits)
qed

text \<open>
  The \<open>do ... while (sent < message_size)\<close> loop of \<open>socket_send\<close> (socket.c), on the
  \<open>message_size\<close> bytes of the message. The result is whether a \<open>send\<close> returned a
  negative value, the final \<open>sent\<close>, and the events left.
\<close>

function socket_send_loop :: "tx_event list \<Rightarrow> string \<Rightarrow> nat \<Rightarrow> bool \<times> nat \<times> tx_event list" where
  "socket_send_loop es message sent =
     (case sys_send es (drop sent message) of (bytes, es') \<Rightarrow>
        if bytes < 0 then (True, sent, es')
        else if bytes = 0 then (False, sent, es')
        else if sent + nat bytes < length message
          then socket_send_loop es' message (sent + nat bytes)
        else (False, sent + nat bytes, es'))"
  by pat_completeness auto
termination
  by (relation "measure (\<lambda>(es, m, k). length es)") (auto intro: sys_send_shorter)

declare socket_send_loop.simps [simp del]

text \<open>
  \<open>socket_send(socket, message, message_size)\<close>. The connection returned has the bytes
  that went out appended to \<open>transmitted\<close>, also when the call ends in a fatal error.
\<close>

definition socket_send :: "conn \<Rightarrow> string \<Rightarrow> nat \<Rightarrow> conn \<times> tHTTPError option" where
  "socket_send ns message message_size =
     (case socket_send_loop (tx ns) (take message_size message) 0 of (failed, n, es) \<Rightarrow>
        let ns' = ns\<lparr>tx := es, transmitted := transmitted ns @ take n message\<rparr>
        in if failed then (ns', Some EXIT_SOCKET_SEND_FAILED)
           else if n \<noteq> message_size then (ns', Some EXIT_SOCKET_WEIRD_TX_LENGTH)
           else (ns', None))"

section \<open>Blob (blob.c)\<close>

record Blob =
  Blob_length :: nat
  Blob_data :: string

text \<open>A \<open>Blob*\<close> is a \<open>Blob option\<close>, \<open>None\<close> the NULL pointer.\<close>

definition blob_new :: "bool \<Rightarrow> nat \<Rightarrow> Blob option" where
  "blob_new malloc_succeeds sz =
     (if \<not> malloc_succeeds then None
      else Some \<lparr>Blob_length = sz, Blob_data = replicate sz NUL\<rparr>)"

fun blob_get_size :: "Blob option \<Rightarrow> nat" where
  "blob_get_size (Some blob) = Blob_length blob"
| "blob_get_size None = 0"

fun blob_get_data :: "Blob option \<Rightarrow> string" where
  "blob_get_data (Some blob) = Blob_data blob"
| "blob_get_data None = []"

section \<open>The route table (hsearch(3))\<close>

text \<open>
  The table that \<open>hcreate\<close> makes and \<open>hsearch\<close> reads and extends: the entries in
  the order they were entered, keys compared as C strings. How many entries
  \<open>hcreate(1)\<close> leaves room for depends on the C library (main.c notes that the macOS
  one grows); \<open>hcapacity\<close> is that number, \<open>None\<close> when the table grows.
\<close>

record htab =
  entries :: "(string \<times> Blob) list"
  hcapacity :: "nat option"

definition hsearch_FIND :: "htab \<Rightarrow> string \<Rightarrow> Blob option" where
  "hsearch_FIND t key = map_of (entries t) key"

text \<open>
  \<open>hsearch(item, ENTER)\<close>: a key that is in the table is found, nothing is stored and
  the entry found is returned; a new key is stored unless the table is full, when the
  result is NULL. The result here is the table after the call, \<open>None\<close> for NULL.
\<close>

definition hsearch_ENTER :: "htab \<Rightarrow> string \<Rightarrow> Blob \<Rightarrow> htab option" where
  "hsearch_ENTER t key blob =
     (if key \<in> fst ` set (entries t) then Some t
      else if (case hcapacity t of None \<Rightarrow> False | Some c \<Rightarrow> c \<le> length (entries t)) then None
      else Some (t\<lparr>entries := entries t @ [(key, blob)]\<rparr>))"

section \<open>The web root as fts(3) shows it\<close>

text \<open>
  A regular file as the scan meets it: the size \<open>stat\<close> reported to the walker, the
  bytes \<open>fread\<close> can get from it when it is read, whether \<open>fopen\<close> succeeds, whether
  the stream's error indicator is set after the read, and whether the allocation of the
  blob for this file succeeds.
\<close>

record regfile =
  st_size :: nat
  content :: string
  fopen_ok :: bool
  ferror :: bool
  malloc_ok :: bool

text \<open>The values of \<open>fts_info\<close> that the \<open>switch\<close> of \<open>scan_web_root\<close> names.\<close>

datatype fts_info_t =
    FTS_D | FTS_DP | FTS_F | FTS_SL | FTS_SLNONE | FTS_DC
  | FTS_ERR | FTS_DNR | FTS_NS | FTS_NSOK | FTS_DEFAULT | FTS_DOT

text \<open>
  The fields of an \<open>FTSENT\<close> that the scan reads. \<open>S_ISREG\<close> is the test on
  \<open>fts_statp->st_mode\<close>; \<open>fts_file\<close> is the file behind \<open>fts_accpath\<close> and
  \<open>fts_statp->st_size\<close>, read for \<open>FTS_F\<close> only.
\<close>

record FTSENT =
  fts_info :: fts_info_t
  fts_name :: string
  fts_path :: string
  S_ISREG :: bool
  fts_file :: regfile

record scan_state =
  hash_table :: htab
  max_path_len_out :: nat

text \<open>\<open>p->fts_name[0] == '.'\<close>; the byte at index 0 of an empty name is its NUL.\<close>

definition dotname :: "string \<Rightarrow> bool" where
  "dotname name = (case name of [] \<Rightarrow> False | c # _ \<Rightarrow> c = CHR ''.'')"

definition index_suffix :: string where
  "index_suffix = ''/index.html''"

text \<open>
  Lines 255 to 268: the path after the base path, with a final \<open>/index.html\<close> cut off,
  and \<open>/\<close> where that leaves nothing.
\<close>

definition route_of :: "nat \<Rightarrow> string \<Rightarrow> string" where
  "route_of base_path_len path =
     (let file_path = drop base_path_len path;
          file_path_len = length file_path;
          index_suffix_len = length index_suffix
      in if file_path_len \<ge> index_suffix_len \<and>
            drop (file_path_len - index_suffix_len) file_path = index_suffix
         then (let file_path = take (file_path_len - index_suffix_len) file_path
               in if file_path = [] then ''/'' else file_path)
         else file_path)"

text \<open>
  \<open>fread(blob_get_data(blob), 1, blob_get_size(blob), f)\<close>: the number of bytes read
  and the buffer afterwards.
\<close>

definition fread :: "string \<Rightarrow> nat \<Rightarrow> regfile \<Rightarrow> nat \<times> string" where
  "fread buf nmemb f =
     (let bs = take nmemb (content f) in (length bs, bs @ drop (length bs) buf))"

text \<open>
  The body of \<open>while ((p = fts_read(fts)) != NULL)\<close> for one entry. \<open>Inl\<close> is the exit
  code of a \<open>diag_fatal\<close>; otherwise the state after the entry and whether
  \<open>fts_set(fts, p, FTS_SKIP)\<close> was called on it. After a short read \<open>ferror\<close> only
  selects the message that is logged: both branches exit with \<open>EXIT_FREAD_FAILED\<close>.
\<close>

definition scan_entry :: "nat \<Rightarrow> FTSENT \<Rightarrow> scan_state \<Rightarrow> tHTTPError + scan_state \<times> bool" where
  "scan_entry base_path_len p st =
     (case fts_info p of
        FTS_D \<Rightarrow> Inr (st, dotname (fts_name p))
      | FTS_DP \<Rightarrow> Inr (st, False)
      | FTS_F \<Rightarrow>
          (if \<not> S_ISREG p then Inl EXIT_FTS_UNUSUAL_FILE
           else if dotname (fts_name p) then Inr (st, False)
           else
             (let file_path = route_of base_path_len (fts_path p);
                  route_len = length file_path;
                  st1 = (if route_len > max_path_len_out st
                         then st\<lparr>max_path_len_out := route_len\<rparr> else st)
              in (if \<not> fopen_ok (fts_file p) then Inl EXIT_FOPEN_FAILED
                  else
                    (case blob_new (malloc_ok (fts_file p)) (st_size (fts_file p)) of
                       None \<Rightarrow> Inl EXIT_MALLOC_FAILED
                     | Some blob \<Rightarrow>
                         (case fread (blob_get_data (Some blob)) (blob_get_size (Some blob))
                                 (fts_file p) of
                            (num_read, bytes) \<Rightarrow>
                              (if num_read \<noteq> st_size (fts_file p) then Inl EXIT_FREAD_FAILED
                               else
                                 (case hsearch_ENTER (hash_table st1) file_path
                                         (blob\<lparr>Blob_data := bytes\<rparr>) of
                                    None \<Rightarrow> Inl EXIT_HSEARCH_TABLE_FULL
                                  | Some t \<Rightarrow> Inr (st1\<lparr>hash_table := t\<rparr>, False))))))))
      | FTS_SL \<Rightarrow> Inl EXIT_SYMLINK_IN_WEB_ROOT
      | FTS_SLNONE \<Rightarrow> Inl EXIT_SYMLINK_IN_WEB_ROOT
      | FTS_DC \<Rightarrow> Inl EXIT_CYCLE_IN_WEB_ROOT
      | FTS_ERR \<Rightarrow> Inl EXIT_FTS_READ_FAILED
      | FTS_DNR \<Rightarrow> Inl EXIT_FTS_READ_FAILED
      | FTS_NS \<Rightarrow> Inl EXIT_FTS_READ_FAILED
      | FTS_NSOK \<Rightarrow> Inl EXIT_FTS_UNUSUAL_FILE
      | FTS_DEFAULT \<Rightarrow> Inl EXIT_FTS_UNUSUAL_FILE
      | FTS_DOT \<Rightarrow> Inl EXIT_FTS_UNUSUAL_FILE)"

text \<open>
  The tree that \<open>fts_open(path, FTS_PHYSICAL | FTS_COMFOLLOW | FTS_XDEV)\<close> walks. The
  walker is the C library's; the model follows fts(3):
  \<^item> a regular file is returned once, as \<open>FTS_F\<close>;
  \<^item> a directory is returned as \<open>FTS_D\<close> before its entries and as \<open>FTS_DP\<close> after
    them; after \<open>FTS_SKIP\<close> its entries are not read and not returned. The entries come
    in the order of the list. A directory on another device (\<open>FTS_XDEV\<close>) is returned
    and not descended into: it is a directory without entries here;
  \<^item> a directory that cannot be read is returned as \<open>FTS_D\<close>, then as \<open>FTS_DNR\<close>
    when the walker tries to read it;
  \<^item> with \<open>FTS_PHYSICAL\<close> a symbolic link below the root is returned as \<open>FTS_SL\<close>,
    whatever it points to. With \<open>FTS_COMFOLLOW\<close> a symbolic link given as the root path is
    followed: the walk is that of its target, and the link is returned as \<open>FTS_SLNONE\<close>
    when it has none. \<open>Symlink t\<close> carries the target, \<open>None\<close> when it dangles;
  \<^item> a device, socket or FIFO is \<open>FTS_DEFAULT\<close>, an entry that \<open>stat\<close> fails on is
    \<open>FTS_NS\<close>, a directory that closes a cycle is \<open>FTS_DC\<close>;
  \<^item> \<open>fts_path\<close> of the root is the path given to \<open>fts_open\<close>. \<open>fts_path\<close> of an
    entry of a directory is the directory's \<open>fts_path\<close>, a slash, and the entry's name,
    but the walker adds no second slash after a path that ends in one: the root
    \<open>public_html/\<close> has the entry \<open>public_html/a.txt\<close>, and the root \<open>/\<close> the entry
    \<open>/etc\<close>. That is \<open>fts_child_path\<close>. (The comment in main.c, lines 253 and 254,
    takes the paths to be "simply appended".)
\<close>

datatype fsnode =
    Reg regfile
  | Dir "(string \<times> fsnode) list"
  | DirUnreadable
  | Symlink "fsnode option"
  | Special
  | NoStat
  | Cycle

definition no_file :: regfile where
  "no_file = \<lparr>st_size = 0, content = [], fopen_ok = False, ferror = False, malloc_ok = False\<rparr>"

definition ftsent :: "fts_info_t \<Rightarrow> string \<Rightarrow> string \<Rightarrow> FTSENT" where
  "ftsent info name path =
     \<lparr>fts_info = info, fts_name = name, fts_path = path, S_ISREG = False, fts_file = no_file\<rparr>"

definition ftsent_file :: "string \<Rightarrow> string \<Rightarrow> regfile \<Rightarrow> FTSENT" where
  "ftsent_file name path f =
     \<lparr>fts_info = FTS_F, fts_name = name, fts_path = path, S_ISREG = True, fts_file = f\<rparr>"

text \<open>
  The path that the walker gives an entry \<open>name\<close> of the directory at \<open>path\<close>. The
  slash and the name are written at the offset \<open>NAPPEND\<close> of the directory's path
  (the macro of fts.c): its length, or one less when its last byte is a slash, which
  the slash before the name then replaces.
\<close>

definition NAPPEND :: "string \<Rightarrow> nat" where
  "NAPPEND path =
     (if path \<noteq> [] \<and> last path = CHR ''/'' then length path - 1 else length path)"

definition fts_child_path :: "string \<Rightarrow> string \<Rightarrow> string" where
  "fts_child_path path name = take (NAPPEND path) path @ ''/'' @ name"

text \<open>One pass of the loop where the \<open>FTS_SKIP\<close> request does not matter.\<close>

definition scan_step :: "nat \<Rightarrow> FTSENT \<Rightarrow> scan_state \<Rightarrow> tHTTPError + scan_state" where
  "scan_step base_path_len p st =
     (case scan_entry base_path_len p st of Inl e \<Rightarrow> Inl e | Inr (st', skip) \<Rightarrow> Inr st')"

text \<open>
  The loop of \<open>scan_web_root\<close> over the entries that \<open>fts_read\<close> returns for one node
  and for the entries of one directory.
\<close>

fun scan_node :: "nat \<Rightarrow> string \<Rightarrow> string \<Rightarrow> fsnode \<Rightarrow> scan_state \<Rightarrow> tHTTPError + scan_state"
  and scan_dir :: "nat \<Rightarrow> string \<Rightarrow> (string \<times> fsnode) list \<Rightarrow> scan_state \<Rightarrow> tHTTPError + scan_state"
where
  "scan_node bl path name (Reg f) st = scan_step bl (ftsent_file name path f) st"
| "scan_node bl path name (Dir children) st =
     (case scan_entry bl (ftsent FTS_D name path) st of
        Inl e \<Rightarrow> Inl e
      | Inr (st1, skip) \<Rightarrow>
          if skip then scan_step bl (ftsent FTS_DP name path) st1
          else (case scan_dir bl path children st1 of
                  Inl e \<Rightarrow> Inl e
                | Inr st2 \<Rightarrow> scan_step bl (ftsent FTS_DP name path) st2))"
| "scan_node bl path name DirUnreadable st =
     (case scan_entry bl (ftsent FTS_D name path) st of
        Inl e \<Rightarrow> Inl e
      | Inr (st1, skip) \<Rightarrow>
          if skip then scan_step bl (ftsent FTS_DP name path) st1
          else scan_step bl (ftsent FTS_DNR name path) st1)"
| "scan_node bl path name (Symlink t) st = scan_step bl (ftsent FTS_SL name path) st"
| "scan_node bl path name Special st = scan_step bl (ftsent FTS_DEFAULT name path) st"
| "scan_node bl path name NoStat st = scan_step bl (ftsent FTS_NS name path) st"
| "scan_node bl path name Cycle st = scan_step bl (ftsent FTS_DC name path) st"
| "scan_dir bl path [] st = Inr st"
| "scan_dir bl path ((name, node) # rest) st =
     (case scan_node bl (fts_child_path path name) name node st of
        Inl e \<Rightarrow> Inl e
      | Inr st1 \<Rightarrow> scan_dir bl path rest st1)"

text \<open>What \<open>stat\<close> sees behind a path: the node at the end of a chain of links.\<close>

fun follow :: "fsnode \<Rightarrow> fsnode option" where
  "follow (Symlink None) = None"
| "follow (Symlink (Some t)) = follow t"
| "follow (Reg f) = Some (Reg f)"
| "follow (Dir children) = Some (Dir children)"
| "follow DirUnreadable = Some DirUnreadable"
| "follow Special = Some Special"
| "follow NoStat = Some NoStat"
| "follow Cycle = Some Cycle"

text \<open>
  What is outside \<open>scan_web_root\<close>: whether \<open>fts_open\<close>, \<open>hcreate\<close> and \<open>fts_close\<close>
  succeed, the room \<open>hcreate(1)\<close> gives, the node at the root path and the name
  \<open>fts_name\<close> that the walker gives it, and \<open>errno\<close> when \<open>fts_read\<close> returns NULL.
\<close>

record scan_env =
  fts_open_ok :: bool
  hcreate_ok :: bool
  hcreate_room :: "nat option"
  root_name :: string
  root :: fsnode
  errno_after :: int
  fts_close_ok :: bool

definition scan_web_root :: "string \<Rightarrow> scan_env \<Rightarrow> tHTTPError + scan_state" where
  "scan_web_root path env =
     (let base_path_len = length path;
          st = \<lparr>hash_table = \<lparr>entries = [], hcapacity = hcreate_room env\<rparr>, max_path_len_out = 0\<rparr>
      in if \<not> fts_open_ok env then Inl EXIT_FTS_OPEN_FAILED
         else if \<not> hcreate_ok env then Inl EXIT_HCREATE_FAILED
         else
           case (case follow (root env) of
                   None \<Rightarrow> scan_step base_path_len (ftsent FTS_SLNONE (root_name env) path) st
                 | Some node \<Rightarrow> scan_node base_path_len path (root_name env) node st) of
             Inl e \<Rightarrow> Inl e
           | Inr st' \<Rightarrow>
               if errno_after env \<noteq> 0 then Inl EXIT_FTS_READ_FAILED
               else if \<not> fts_close_ok env then Inl EXIT_FTS_CLOSE_FAILED
               else Inr st')"

section \<open>The request handler (main.c, child_handle_client)\<close>

record accept_loop_data =
  rx_timeout :: nat
  tx_timeout :: nat
  notfound_route :: string
  max_path_len :: nat

definition CRLF :: string where
  "CRLF = [CHR 0x0D, CHR 0x0A]"

definition fallback_err_response :: string where
  "fallback_err_response =
     ''HTTP/1.1 404 NOT FOUND'' @ CRLF @ ''Content-Length: 13'' @ CRLF @ CRLF @ ''404 NOT FOUND''"

text \<open>\<open>asprintf(&message_buf, "HTTP/1.1 %s\r\nContent-Length: %zu\r\n\r\n", ...)\<close>\<close>

definition response_header :: "string \<Rightarrow> nat \<Rightarrow> string" where
  "response_header response_status sz =
     ''HTTP/1.1 '' @ response_status @ CRLF @ ''Content-Length: '' @ dec sz @ CRLF @ CRLF"

text \<open>
  The worker: the result is what the client was sent and the code the worker process
  exits with, \<open>EXIT_OK\<close> when \<open>child_handle_client\<close> returns to
  \<open>accept_next_connection\<close>, which calls \<open>exit(EXIT_OK)\<close>.
\<close>

definition child_handle_client :: "conn \<Rightarrow> accept_loop_data \<Rightarrow> htab \<Rightarrow> string \<times> tHTTPError" where
  "child_handle_client ns loop_data t =
     (if \<not> rcvtimeo_ok ns then (transmitted ns, EXIT_SETSOCKOPT_FAILED)
      else if \<not> sndtimeo_ok ns then (transmitted ns, EXIT_SETSOCKOPT_FAILED)
      else
        (let max_size = max_path_len loop_data + 5 in
         (case socket_read ns 5 max_size of
            Inl e \<Rightarrow> (transmitted ns, e)
          | Inr (in_buf, ns1) \<Rightarrow>
              (if take 4 (cstr in_buf) \<noteq> ''GET '' then (transmitted ns1, EXIT_NON_GET_REQUEST)
               else
                 (case strtok_r (drop 4 in_buf) delimiters of
                    None \<Rightarrow> (transmitted ns1, EXIT_WEIRD_REQUEST_PATH)
                  | Some get_path \<Rightarrow>
                      (if length get_path < 1 \<or> hd get_path \<noteq> CHR ''/''
                       then (transmitted ns1, EXIT_WEIRD_REQUEST_PATH)
                       else
                         (let found = hsearch_FIND t get_path;
                              response_status =
                                (case found of None \<Rightarrow> ''404 NOT FOUND'' | Some _ \<Rightarrow> ''200 OK'');
                              found_entry =
                                (case found of
                                   None \<Rightarrow> hsearch_FIND t (notfound_route loop_data)
                                 | Some _ \<Rightarrow> found)
                          in (case found_entry of
                                None \<Rightarrow>
                                  (case socket_send ns1 fallback_err_response
                                          (length (cstr fallback_err_response)) of
                                     (ns2, Some e) \<Rightarrow> (transmitted ns2, e)
                                   | (ns2, None) \<Rightarrow> (transmitted ns2, EXIT_NOTFOUND_NOT_FOUND))
                              | Some found_blob \<Rightarrow>
                                  (if \<not> asprintf_ok ns1 then (transmitted ns1, EXIT_MALLOC_FAILED)
                                   else
                                     (let message_buf =
                                            response_header response_status
                                              (blob_get_size (Some found_blob))
                                      in (case socket_send ns1 message_buf
                                                 (length (cstr message_buf)) of
                                            (ns2, Some e) \<Rightarrow> (transmitted ns2, e)
                                          | (ns2, None) \<Rightarrow>
                                              (case socket_send ns2
                                                      (blob_get_data (Some found_blob))
                                                      (blob_get_size (Some found_blob)) of
                                                 (ns3, Some e) \<Rightarrow> (transmitted ns3, e)
                                               | (ns3, None) \<Rightarrow>
                                                   (transmitted ns3, EXIT_OK)))))))))))))"

text \<open>
  \<open>accept_next_connection\<close>: what \<open>accept\<close> and \<open>fork\<close> return is the event. The
  result is the listener's exit code, \<open>None\<close> while it goes on to the next pass of
  \<open>while (true)\<close>, and what the forked worker did, if one was forked.
\<close>

datatype accept_event = AcceptFailed | ForkFailed | Client conn

fun accept_next_connection ::
  "accept_loop_data \<Rightarrow> htab \<Rightarrow> accept_event \<Rightarrow> tHTTPError option \<times> (string \<times> tHTTPError) option" where
  "accept_next_connection loop_data table AcceptFailed = (None, None)"
| "accept_next_connection loop_data table ForkFailed = (Some EXIT_FORK_FAILED, None)"
| "accept_next_connection loop_data table (Client ns) =
     (None, Some (child_handle_client ns loop_data table))"

text \<open>
  \<open>while (true) accept_next_connection(s, loop_data)\<close> over the connection attempts
  that arrive: the listener's exit code, \<open>None\<close> if it is still running after the last
  of them, and the outcome of every worker forked, in order.
\<close>

fun accept_loop ::
  "accept_loop_data \<Rightarrow> htab \<Rightarrow> accept_event list \<Rightarrow> tHTTPError option \<times> (string \<times> tHTTPError) list" where
  "accept_loop loop_data table [] = (None, [])"
| "accept_loop loop_data table (ev # evs) =
     (case accept_next_connection loop_data table ev of
        (Some e, worker) \<Rightarrow> (Some e, case worker of None \<Rightarrow> [] | Some w \<Rightarrow> [w])
      | (None, worker) \<Rightarrow>
          (case accept_loop loop_data table evs of
             (status, workers) \<Rightarrow>
               (status, (case worker of None \<Rightarrow> [] | Some w \<Rightarrow> [w]) @ workers)))"

section \<open>The configuration and the start of the server (main.c, main)\<close>

text \<open>
  \<open>main\<close>. The values that \<open>get_env_integer\<close> and \<open>get_env_str\<close> return are the
  record \<open>config\<close> (a number that \<open>strtonum\<close> refuses ends the process before the
  scan; that exit is not part of the model); what the system calls of the start-up
  return is \<open>startup_env\<close>. The result of \<open>main\<close> on the connection attempts \<open>evs\<close>
  is the exit code of the listener, \<open>None\<close> while it runs, and the outcome of every
  worker it forked.
\<close>

record config =
  cfg_rx_timeout :: nat
  cfg_tx_timeout :: nat
  cfg_web_root :: string
  cfg_notfound_route :: string

record startup_env =
  getuid_root :: bool
  scan :: scan_env
  socket_ok :: bool
  bind_ok :: bool
  listen_ok :: bool
  sandbox_init_ok :: bool

definition socket_server_setup :: "startup_env \<Rightarrow> tHTTPError option" where
  "socket_server_setup env =
     (if \<not> socket_ok env then Some EXIT_SOCKET_FAILED
      else if \<not> bind_ok env then Some EXIT_BIND_FAILED
      else if \<not> listen_ok env then Some EXIT_LISTEN_FAILED
      else None)"

definition main :: "config \<Rightarrow> startup_env \<Rightarrow> accept_event list \<Rightarrow> tHTTPError option \<times> (string \<times> tHTTPError) list" where
  "main cfg env evs =
     (if getuid_root env then (Some EXIT_DONT_USE_ROOT, [])
      else
        case scan_web_root (cfg_web_root cfg) (scan env) of
          Inl e \<Rightarrow> (Some e, [])
        | Inr st \<Rightarrow>
            (case socket_server_setup env of
               Some e \<Rightarrow> (Some e, [])
             | None \<Rightarrow>
                 if \<not> sandbox_init_ok env then (Some EXIT_SANDBOX_FAILED, [])
                 else accept_loop
                        \<lparr>rx_timeout = cfg_rx_timeout cfg, tx_timeout = cfg_tx_timeout cfg,
                         notfound_route = cfg_notfound_route cfg,
                         max_path_len = max_path_len_out st\<rparr>
                        (hash_table st) evs))"

section \<open>Notions used to state the properties\<close>

text \<open>
  The bytes that arrive on a connection before the first \<open>read\<close> that returns no data,
  and whether that \<open>read\<close> returns 0 (the peer has closed) rather than a negative value
  (an error, or the receive timeout).
\<close>

fun arrived :: "rx_event list \<Rightarrow> string" where
  "arrived (RxData bs # es) = (if bs = [] then [] else bs @ arrived es)"
| "arrived es = []"

fun closes :: "rx_event list \<Rightarrow> bool" where
  "closes (RxData bs # es) = (if bs = [] then True else closes es)"
| "closes (RxClose # es) = True"
| "closes es = False"

definition stored :: "unit + string \<times> rx_event list \<Rightarrow> string option" where
  "stored r = (case r of Inl _ \<Rightarrow> None | Inr (in_buf, es) \<Rightarrow> Some in_buf)"

text \<open>A \<open>send\<close> that takes at least one byte when it is given one.\<close>

fun tx_progress :: "tx_event \<Rightarrow> bool" where
  "tx_progress (TxAccept k) = (0 < k)"
| "tx_progress TxError = False"

text \<open>
  A request path as a client can ask for it: it starts with a slash and holds no
  delimiter of the parser and no NUL. The buffer received is a request for \<open>p\<close> when it
  is \<open>GET\<close>, a space, \<open>p\<close>, and then nothing, or a delimiter or NUL and anything.
\<close>

definition path_token :: "string \<Rightarrow> bool" where
  "path_token p = (p \<noteq> [] \<and> hd p = CHR ''/'' \<and> (\<forall>c\<in>set p. c \<notin> delimiters \<and> c \<noteq> NUL))"

definition request_for :: "string \<Rightarrow> string \<Rightarrow> bool" where
  "request_for p in_buf =
     (take (4 + length p) in_buf = ''GET '' @ p \<and>
      (case drop (4 + length p) in_buf of [] \<Rightarrow> True | c # _ \<Rightarrow> c \<in> delimiters \<or> c = NUL))"

section \<open>Bounded reading and writing\<close>

lemma socket_read_loop_spec:
  "length in_buf < max_size \<Longrightarrow>
   stored (socket_read_loop es max_size in_buf) =
     (if max_size \<le> length in_buf + length (arrived es)
      then Some (in_buf @ take (max_size - length in_buf) (arrived es))
      else if closes es then Some (in_buf @ arrived es) else None)"
proof (induction es arbitrary: in_buf)
  case Nil
  then show ?case by (simp add: socket_read_loop.simps stored_def)
next
  case (Cons e es)
  show ?case
  proof (cases e)
    case (RxData bs)
    show ?thesis
    proof (cases "bs = []")
      case True
      with RxData Cons.prems show ?thesis by (simp add: socket_read_loop.simps stored_def)
    next
      case False
      show ?thesis
      proof (cases "length in_buf + length bs < max_size")
        case True
        then have "length (in_buf @ bs) < max_size" by simp
        from Cons.IH [OF this] True False RxData show ?thesis
          by (subst socket_read_loop.simps) (simp add: add.assoc stored_def)
      next
        case full: False
        with False RxData Cons.prems show ?thesis
          by (subst socket_read_loop.simps) (auto simp: stored_def)
      qed
    qed
  next
    case RxClose
    with Cons.prems show ?thesis by (simp add: socket_read_loop.simps stored_def)
  next
    case RxError
    with Cons.prems show ?thesis by (simp add: socket_read_loop.simps stored_def)
  qed
qed

lemma socket_read_spec:
  assumes "0 < max_size"
  shows "socket_read ns min_size max_size =
     (if max_size \<le> length (arrived (rx ns)) \<or> closes (rx ns)
      then (if length (take max_size (arrived (rx ns))) < min_size
            then Inl EXIT_SOCKET_WEIRD_RX_LENGTH
            else Inr (take max_size (arrived (rx ns)),
                      ns\<lparr>rx := snd (projr (socket_read_loop (rx ns) max_size []))\<rparr>))
      else Inl EXIT_SOCKET_READ_FAILED)"
proof -
  from assms have "length ([]::string) < max_size" by simp
  from socket_read_loop_spec [OF this, of "rx ns"]
  have s: "stored (socket_read_loop (rx ns) max_size []) =
     (if max_size \<le> length (arrived (rx ns)) then Some (take max_size (arrived (rx ns)))
      else if closes (rx ns) then Some (arrived (rx ns)) else None)" by simp
  show ?thesis
  proof (cases "socket_read_loop (rx ns) max_size []")
    case (Inl u)
    with s show ?thesis by (auto simp: stored_def socket_read_def split: if_splits)
  next
    case (Inr r)
    obtain b es where r: "r = (b, es)" by (cases r)
    with Inr s show ?thesis
      by (auto simp: stored_def socket_read_def split: if_splits)
  qed
qed

lemma socket_read_keeps:
  "socket_read ns a b = Inr (in_buf, ns1) \<Longrightarrow>
   tx ns1 = tx ns \<and> transmitted ns1 = transmitted ns \<and> asprintf_ok ns1 = asprintf_ok ns"
  by (auto simp: socket_read_def split: sum.splits if_splits)

lemma socket_send_loop_progress:
  "list_all tx_progress es \<Longrightarrow> n \<le> length msg \<Longrightarrow>
   \<exists>es'. socket_send_loop es msg n = (False, length msg, es') \<and> list_all tx_progress es'"
proof (induction es arbitrary: n)
  case Nil
  then show ?case by (subst socket_send_loop.simps) auto
next
  case (Cons e es)
  then obtain k where e: "e = TxAccept k" and k: "0 < k" and es: "list_all tx_progress es"
    by (cases e) auto
  show ?case
  proof (cases "n + min k (length msg - n) < length msg")
    case True
    then have "n + min k (length msg - n) \<le> length msg" by simp
    from Cons.IH [OF es this] obtain es' where
      "socket_send_loop es msg (n + min k (length msg - n)) = (False, length msg, es')"
      "list_all tx_progress es'" by blast
    with True e k show ?thesis
      by (subst socket_send_loop.simps) (auto simp: min_def split: if_splits)
  next
    case False
    with e k es Cons.prems show ?thesis
      by (subst socket_send_loop.simps) (auto simp: min_def split: if_splits)
  qed
qed

lemma socket_send_progress:
  assumes "list_all tx_progress (tx ns)"
  shows "\<exists>ns'. socket_send ns msg (length msg) = (ns', None) \<and>
           transmitted ns' = transmitted ns @ msg \<and> list_all tx_progress (tx ns') \<and>
           asprintf_ok ns' = asprintf_ok ns"
proof -
  from socket_send_loop_progress [OF assms, of 0 msg] obtain es' where
    "socket_send_loop (tx ns) msg 0 = (False, length msg, es')" "list_all tx_progress es'"
    by auto
  then show ?thesis by (simp add: socket_send_def)
qed

text \<open>A connection that the examples below start from: no error, a peer that takes all it is sent.\<close>

definition example_conn :: "rx_event list \<Rightarrow> conn" where
  "example_conn es =
     \<lparr>rx = es, tx = [], transmitted = [], rcvtimeo_ok = True, sndtimeo_ok = True,
      asprintf_ok = True\<rparr>"

text \<open>
  C8. \<open>socket_read\<close> with a positive \<open>max_size\<close> collects the bytes that arrive until it
  holds \<open>max_size\<close> of them or a \<open>read\<close> returns 0 because the peer has closed, and
  never holds more than \<open>max_size\<close>. It returns the buffer only if its length is between
  \<open>min_size\<close> and \<open>max_size\<close>. A length below \<open>min_size\<close> ends the worker with
  \<open>EXIT_SOCKET_WEIRD_RX_LENGTH\<close> (23); a \<open>read\<close> that fails before the buffer is full
  ends it with \<open>EXIT_SOCKET_READ_FAILED\<close> (21), a different code. The worker reads
  with \<open>min_size\<close> 5 and \<open>max_size\<close> \<open>max_path_len + 5\<close>, and exits with the code of
  \<open>socket_read\<close> without sending anything.
\<close>

theorem socket_read_bounded:
  assumes "0 < max_size"
  shows "(case socket_read ns min_size max_size of
            Inr (in_buf, ns') \<Rightarrow>
              in_buf = take max_size (arrived (rx ns)) \<and>
              (length in_buf = max_size \<or> closes (rx ns)) \<and>
              min_size \<le> length in_buf \<and> length in_buf \<le> max_size
          | Inl e \<Rightarrow>
              (if max_size \<le> length (arrived (rx ns)) \<or> closes (rx ns)
               then e = EXIT_SOCKET_WEIRD_RX_LENGTH \<and>
                    length (take max_size (arrived (rx ns))) < min_size
               else e = EXIT_SOCKET_READ_FAILED)) \<and>
         exit_code EXIT_SOCKET_WEIRD_RX_LENGTH \<noteq> exit_code EXIT_SOCKET_READ_FAILED \<and>
         (\<forall>e. rcvtimeo_ok ns \<and> sndtimeo_ok ns \<and>
              socket_read ns 5 (max_path_len loop_data + 5) = Inl e \<longrightarrow>
              child_handle_client ns loop_data t = (transmitted ns, e))"
proof -
  have "exit_code EXIT_SOCKET_WEIRD_RX_LENGTH \<noteq> exit_code EXIT_SOCKET_READ_FAILED"
    by simp
  moreover have "\<forall>e. rcvtimeo_ok ns \<and> sndtimeo_ok ns \<and>
              socket_read ns 5 (max_path_len loop_data + 5) = Inl e \<longrightarrow>
              child_handle_client ns loop_data t = (transmitted ns, e)"
    by (simp add: child_handle_client_def Let_def)
  moreover have "case socket_read ns min_size max_size of
            Inr (in_buf, ns') \<Rightarrow>
              in_buf = take max_size (arrived (rx ns)) \<and>
              (length in_buf = max_size \<or> closes (rx ns)) \<and>
              min_size \<le> length in_buf \<and> length in_buf \<le> max_size
          | Inl e \<Rightarrow>
              (if max_size \<le> length (arrived (rx ns)) \<or> closes (rx ns)
               then e = EXIT_SOCKET_WEIRD_RX_LENGTH \<and>
                    length (take max_size (arrived (rx ns))) < min_size
               else e = EXIT_SOCKET_READ_FAILED)"
    by (subst socket_read_spec [OF assms]) (auto simp: min_def)
  ultimately show ?thesis by blast
qed

theorem socket_read_bounded_witness:
  "map_sum id fst
     (socket_read (example_conn [RxData ''GET /ind'', RxData ''ex.html HTTP/1.1'']) 5 15) =
     Inr ''GET /index.html'' \<and>
   socket_read (example_conn [RxData ''GET'', RxClose]) 5 15 = Inl EXIT_SOCKET_WEIRD_RX_LENGTH \<and>
   socket_read (example_conn [RxData ''GET /a'']) 5 15 = Inl EXIT_SOCKET_READ_FAILED"
proof -
  have pos: "0 < (15::nat)" by simp
  have a: "map_sum id fst
     (socket_read (example_conn [RxData ''GET /ind'', RxData ''ex.html HTTP/1.1'']) 5 15) =
     Inr ''GET /index.html''"
    using socket_read_bounded [OF pos, of "example_conn [RxData ''GET /ind'', RxData ''ex.html HTTP/1.1'']" 5,
        THEN conjunct1]
    by (auto simp: example_conn_def split: sum.splits)
  have b: "socket_read (example_conn [RxData ''GET'', RxClose]) 5 15 = Inl EXIT_SOCKET_WEIRD_RX_LENGTH"
    using socket_read_bounded [OF pos, of "example_conn [RxData ''GET'', RxClose]" 5, THEN conjunct1]
    by (auto simp: example_conn_def split: sum.splits)
  have c: "socket_read (example_conn [RxData ''GET /a'']) 5 15 = Inl EXIT_SOCKET_READ_FAILED"
    using socket_read_bounded [OF pos, of "example_conn [RxData ''GET /a'']" 5, THEN conjunct1]
    by (auto simp: example_conn_def split: sum.splits)
  from a b c show ?thesis by blast
qed

section \<open>Parsing the request\<close>

lemma exit_code_inj: "inj exit_code"
proof (rule injI)
  fix a b assume "exit_code a = exit_code b"
  then show "a = b" by (cases a; cases b; simp)
qed

lemma strtok_r_token:
  assumes tok: "\<forall>c\<in>set tok. c \<notin> delimiters \<and> c \<noteq> NUL" and ne: "tok \<noteq> []"
    and rest: "case rest of [] \<Rightarrow> True | c # _ \<Rightarrow> c \<in> delimiters \<or> c = NUL"
  shows "strtok_r (tok @ rest) delimiters = Some tok"
proof -
  from tok have c: "cstr (tok @ rest) = tok @ cstr rest"
    by (simp add: cstr_def)
  from tok ne have d: "dropWhile (\<lambda>c. c \<in> delimiters) (tok @ cstr rest) = tok @ cstr rest"
    by (cases tok) auto
  have e: "takeWhile (\<lambda>c. c \<notin> delimiters) (cstr rest) = []"
    using rest by (cases rest) (auto simp: cstr_def)
  from tok have "takeWhile (\<lambda>c. c \<notin> delimiters) (tok @ cstr rest) = tok"
    by (simp add: e)
  with c d ne show ?thesis by (simp add: strtok_r_def)
qed

lemma request_for_parse:
  assumes "request_for p in_buf" and "path_token p"
  shows "take 4 (cstr in_buf) = ''GET ''" and "strtok_r (drop 4 in_buf) delimiters = Some p"
proof -
  define rest where "rest = drop (4 + length p) in_buf"
  from assms(1) have "in_buf = (''GET '' @ p) @ rest"
    unfolding rest_def request_for_def by (metis append_take_drop_id)
  then have buf: "in_buf = ''GET '' @ p @ rest" by simp
  from assms(1) have r: "case rest of [] \<Rightarrow> True | c # _ \<Rightarrow> c \<in> delimiters \<or> c = NUL"
    by (simp add: rest_def request_for_def)
  show "take 4 (cstr in_buf) = ''GET ''"
    by (simp add: buf cstr_def NUL_def)
  from assms(2) have "\<forall>c\<in>set p. c \<notin> delimiters \<and> c \<noteq> NUL" "p \<noteq> []"
    by (simp_all add: path_token_def)
  from strtok_r_token [OF this r] show "strtok_r (drop 4 in_buf) delimiters = Some p"
    by (simp add: buf)
qed

lemma cstr_fallback: "cstr fallback_err_response = fallback_err_response"
  by (simp add: cstr_def fallback_err_response_def CRLF_def NUL_def)

lemma child_notfound_twice:
  assumes opts: "rcvtimeo_ok ns" "sndtimeo_ok ns"
    and rd: "socket_read ns 5 (max_path_len loop_data + 5) = Inr (in_buf, ns1)"
    and req: "request_for get_path in_buf" "path_token get_path"
    and miss: "hsearch_FIND t get_path = None" "hsearch_FIND t (notfound_route loop_data) = None"
    and peer: "list_all tx_progress (tx ns)"
  shows "child_handle_client ns loop_data t =
           (transmitted ns @ fallback_err_response, EXIT_NOTFOUND_NOT_FOUND)"
proof -
  note p = request_for_parse [OF req]
  from socket_read_keeps [OF rd] peer have "list_all tx_progress (tx ns1)"
    and tr: "transmitted ns1 = transmitted ns" by simp_all
  from socket_send_progress [OF this(1), of fallback_err_response] obtain ns2 where
    s: "socket_send ns1 fallback_err_response (length fallback_err_response) = (ns2, None)"
       "transmitted ns2 = transmitted ns1 @ fallback_err_response" by blast
  from req(2) have g: "get_path \<noteq> []" "hd get_path = CHR ''/''"
    by (simp_all add: path_token_def)
  show ?thesis
    unfolding child_handle_client_def
    by (simp add: opts rd p g miss cstr_fallback s tr Let_def)
qed

text \<open>
  C7. A worker that has read a request for a path that is not in the table, with a
  not-found route that is not in the table either, and whose peer takes what it is
  sent, sends the 59 bytes of the built-in response and nothing else, and exits with
  \<open>EXIT_NOTFOUND_NOT_FOUND\<close>: code 25, which no other enumerator has. The listener
  that forked it goes on with the next connection attempts as it would have anyway.
\<close>

theorem notfound_route_missing_fallback:
  assumes opts: "rcvtimeo_ok ns" "sndtimeo_ok ns"
    and rd: "socket_read ns 5 (max_path_len loop_data + 5) = Inr (in_buf, ns1)"
    and req: "request_for get_path in_buf" "path_token get_path"
    and miss: "hsearch_FIND t get_path = None" "hsearch_FIND t (notfound_route loop_data) = None"
    and peer: "list_all tx_progress (tx ns)"
  shows "child_handle_client ns loop_data t =
           (transmitted ns @ fallback_err_response, EXIT_NOTFOUND_NOT_FOUND) \<and>
         fallback_err_response =
           ''HTTP/1.1 404 NOT FOUND'' @ [CHR 0x0D, CHR 0x0A] @ ''Content-Length: 13'' @
           [CHR 0x0D, CHR 0x0A, CHR 0x0D, CHR 0x0A] @ ''404 NOT FOUND'' \<and>
         accept_loop loop_data t (Client ns # evs) =
           (fst (accept_loop loop_data t evs),
            (transmitted ns @ fallback_err_response, EXIT_NOTFOUND_NOT_FOUND) #
            snd (accept_loop loop_data t evs)) \<and>
         exit_code EXIT_NOTFOUND_NOT_FOUND = 25 \<and> inj exit_code"
proof -
  note c = child_notfound_twice [OF assms]
  have "accept_loop loop_data t (Client ns # evs) =
           (fst (accept_loop loop_data t evs),
            (transmitted ns @ fallback_err_response, EXIT_NOTFOUND_NOT_FOUND) #
            snd (accept_loop loop_data t evs))"
    by (simp add: c split: prod.splits)
  moreover have "fallback_err_response =
           ''HTTP/1.1 404 NOT FOUND'' @ [CHR 0x0D, CHR 0x0A] @ ''Content-Length: 13'' @
           [CHR 0x0D, CHR 0x0A, CHR 0x0D, CHR 0x0A] @ ''404 NOT FOUND''"
    by (simp add: fallback_err_response_def CRLF_def)
  ultimately show ?thesis using c exit_code_inj by simp
qed

definition example_loop_data :: accept_loop_data where
  "example_loop_data =
     \<lparr>rx_timeout = 1, tx_timeout = 1, notfound_route = ''/404.html'', max_path_len = 11\<rparr>"

definition example_table :: htab where
  "example_table =
     \<lparr>entries = [(''/'', \<lparr>Blob_length = 2, Blob_data = ''hi''\<rparr>),
                 (''/about.html'', \<lparr>Blob_length = 5, Blob_data = ''about''\<rparr>)],
      hcapacity = None\<rparr>"

theorem notfound_route_missing_fallback_witness:
  "child_handle_client (example_conn [RxData ''GET /missing HTTP/1.1'']) example_loop_data
     example_table = (fallback_err_response, EXIT_NOTFOUND_NOT_FOUND) \<and>
   accept_loop example_loop_data example_table
     [Client (example_conn [RxData ''GET /missing HTTP/1.1'']), AcceptFailed] =
     (None, [(fallback_err_response, EXIT_NOTFOUND_NOT_FOUND)])"
proof -
  let ?ns = "example_conn [RxData ''GET /missing HTTP/1.1'']"
  have o: "rcvtimeo_ok ?ns" "sndtimeo_ok ?ns" "list_all tx_progress (tx ?ns)"
    by (simp_all add: example_conn_def)
  have rd: "socket_read ?ns 5 (max_path_len example_loop_data + 5) =
              Inr (''GET /missing HTT'', example_conn [RxData ''P/1.1''])"
    by (simp add: socket_read_def socket_read_loop.simps example_conn_def example_loop_data_def)
  have req: "request_for ''/missing'' ''GET /missing HTT''"
    by (simp add: request_for_def delimiters_def)
  have tok: "path_token ''/missing''"
    by (simp add: path_token_def delimiters_def NUL_def)
  have miss: "hsearch_FIND example_table ''/missing'' = None"
    "hsearch_FIND example_table (notfound_route example_loop_data) = None"
    by (simp_all add: hsearch_FIND_def example_table_def example_loop_data_def)
  from notfound_route_missing_fallback [OF o(1) o(2) rd req tok miss o(3), of "[AcceptFailed]"]
  show ?thesis by (simp add: example_conn_def)
qed

section \<open>What the walk comes to\<close>

text \<open>
  \<open>visited P name node\<close>: the walk of \<open>node\<close>, which the walker reports under the name
  \<open>name\<close>, returns an entry whose name and node satisfy \<open>P\<close>. The entries of a
  directory are returned unless the scan skips it, which is when its name starts with
  a dot.
\<close>

fun visited :: "(string \<Rightarrow> fsnode \<Rightarrow> bool) \<Rightarrow> string \<Rightarrow> fsnode \<Rightarrow> bool"
  and visited_dir :: "(string \<Rightarrow> fsnode \<Rightarrow> bool) \<Rightarrow> (string \<times> fsnode) list \<Rightarrow> bool"
where
  "visited P name (Dir children) =
     (P name (Dir children) \<or> (\<not> dotname name \<and> visited_dir P children))"
| "visited P name node = P name node"
| "visited_dir P [] = False"
| "visited_dir P ((name, node) # rest) = (visited P name node \<or> visited_dir P rest)"

lemma scan_step_simps:
  "scan_step bl (ftsent FTS_DP name path) st = Inr st"
  "scan_step bl (ftsent FTS_SL name path) st = Inl EXIT_SYMLINK_IN_WEB_ROOT"
  "scan_step bl (ftsent FTS_SLNONE name path) st = Inl EXIT_SYMLINK_IN_WEB_ROOT"
  "scan_step bl (ftsent FTS_DC name path) st = Inl EXIT_CYCLE_IN_WEB_ROOT"
  "scan_step bl (ftsent FTS_DNR name path) st = Inl EXIT_FTS_READ_FAILED"
  "scan_step bl (ftsent FTS_NS name path) st = Inl EXIT_FTS_READ_FAILED"
  "scan_step bl (ftsent FTS_DEFAULT name path) st = Inl EXIT_FTS_UNUSUAL_FILE"
  "scan_entry bl (ftsent FTS_D name path) st = Inr (st, dotname name)"
  by (simp_all add: scan_step_def scan_entry_def ftsent_def)

lemma visited_aborts:
  assumes P: "\<And>bl path name node st. P name node \<Longrightarrow> isl (scan_node bl path name node st)"
  shows "visited P name node \<Longrightarrow> isl (scan_node bl path name node st)"
    and "visited_dir P children \<Longrightarrow> isl (scan_dir bl path children st)"
proof (induction bl path name node st and bl path children st rule: scan_node_scan_dir.induct)
  case (2 bl path name children st)
  show ?case
  proof (cases "P name (Dir children)")
    case True
    then show ?thesis by (rule P)
  next
    case False
    with "2.prems" have nd: "\<not> dotname name" and v: "visited_dir P children" by simp_all
    have "isl (scan_dir bl path children st)"
      using "2.IH" [of "(st, False)" st False] v nd by (simp add: scan_step_simps)
    with nd show ?thesis by (auto simp: scan_step_simps split: sum.splits)
  qed
next
  case (9 bl path name node rest st)
  show ?case
  proof (cases "scan_node bl (fts_child_path path name) name node st")
    case (Inl e)
    then show ?thesis by simp
  next
    case (Inr st1)
    with "9.prems" "9.IH"(1) have "visited_dir P rest" by auto
    from "9.IH"(2) [OF Inr this] Inr show ?thesis by simp
  qed
next
  case (8 bl path st)
  then show ?case by simp
qed (simp_all only: visited.simps P)

lemma scan_web_root_aborts:
  assumes "follow (root env) = Some node"
    and "visited P (root_name env) node"
    and "\<And>bl path name node st. P name node \<Longrightarrow> isl (scan_node bl path name node st)"
  shows "isl (scan_web_root path env)"
proof -
  have "isl (scan_node (length path) path (root_name env) node
              \<lparr>hash_table = \<lparr>entries = [], hcapacity = hcreate_room env\<rparr>,
               max_path_len_out = 0\<rparr>)"
    by (rule visited_aborts(1) [of P, OF assms(3) assms(2)])
  with assms(1) show ?thesis
    by (auto simp: scan_web_root_def Let_def split: sum.splits)
qed

lemma main_scan_aborts:
  assumes "isl (scan_web_root (cfg_web_root cfg) (scan env))"
  shows "snd (main cfg env evs) = [] \<and> fst (main cfg env evs) \<noteq> None"
  using assms by (auto simp: main_def split: sum.splits)

text \<open>Files, environments and a configuration for the examples.\<close>

definition example_file :: "string \<Rightarrow> regfile" where
  "example_file bs =
     \<lparr>st_size = length bs, content = bs, fopen_ok = True, ferror = False, malloc_ok = True\<rparr>"

definition example_env :: "fsnode \<Rightarrow> scan_env" where
  "example_env node =
     \<lparr>fts_open_ok = True, hcreate_ok = True, hcreate_room = None, root_name = ''public_html'',
      root = node, errno_after = 0, fts_close_ok = True\<rparr>"

definition example_startup :: "fsnode \<Rightarrow> startup_env" where
  "example_startup node =
     \<lparr>getuid_root = False, scan = example_env node, socket_ok = True, bind_ok = True,
      listen_ok = True, sandbox_init_ok = True\<rparr>"

definition example_config :: config where
  "example_config =
     \<lparr>cfg_rx_timeout = 1, cfg_tx_timeout = 1, cfg_web_root = ''public_html'',
      cfg_notfound_route = ''/404.html''\<rparr>"

section \<open>Short reads\<close>

text \<open>
  A regular file whose name does not start with a dot and from which \<open>fread\<close> gets a
  number of bytes other than its \<open>st_size\<close>.
\<close>

definition short_read :: "string \<Rightarrow> fsnode \<Rightarrow> bool" where
  "short_read name node =
     (case node of
        Reg f \<Rightarrow> \<not> dotname name \<and> fst (fread (replicate (st_size f) NUL) (st_size f) f) \<noteq> st_size f
      | _ \<Rightarrow> False)"

lemma scan_entry_short_read:
  assumes "\<not> dotname name" and "fst (fread (replicate (st_size f) NUL) (st_size f) f) \<noteq> st_size f"
  shows "scan_entry bl (ftsent_file name path f) st =
           Inl (if \<not> fopen_ok f then EXIT_FOPEN_FAILED
                else if \<not> malloc_ok f then EXIT_MALLOC_FAILED else EXIT_FREAD_FAILED)"
  using assms
  by (auto simp: scan_entry_def ftsent_file_def blob_new_def Let_def split: prod.splits)

lemma short_read_fatal: "short_read name node \<Longrightarrow> isl (scan_node bl path name node st)"
  by (cases node) (simp_all add: short_read_def scan_step_def scan_entry_short_read)

text \<open>
  C6. When the walk comes to a regular file, not a dotfile, of which \<open>fread\<close> returns a
  number of bytes different from \<open>st_size\<close>, \<open>scan_web_root\<close> ends in a fatal error
  and \<open>main\<close> exits before it accepts a connection: no worker is forked. The pass of
  the loop for such a file, once it is open and its blob allocated, exits with
  \<open>EXIT_FREAD_FAILED\<close> before \<open>hsearch\<close> is called, so its blob is not entered.
\<close>

theorem short_read_aborts_scan:
  assumes "follow (root (scan env)) = Some node"
    and "visited short_read (root_name (scan env)) node"
  shows "isl (scan_web_root (cfg_web_root cfg) (scan env)) \<and>
         fst (main cfg env evs) \<noteq> None \<and> snd (main cfg env evs) = [] \<and>
         (\<forall>bl name path f st.
            \<not> dotname name \<and> fopen_ok f \<and> malloc_ok f \<and>
            fst (fread (replicate (st_size f) NUL) (st_size f) f) \<noteq> st_size f \<longrightarrow>
            scan_entry bl (ftsent_file name path f) st = Inl EXIT_FREAD_FAILED)"
proof -
  have a: "isl (scan_web_root (cfg_web_root cfg) (scan env))"
    using assms short_read_fatal by (rule scan_web_root_aborts)
  from main_scan_aborts [OF a] a show ?thesis
    by (simp add: scan_entry_short_read)
qed

theorem short_read_aborts_scan_witness:
  "isl (scan_web_root ''public_html''
          (example_env (Dir [(''a.txt'', Reg ((example_file ''abc'')\<lparr>st_size := 5\<rparr>))]))) \<and>
   main example_config
     (example_startup (Dir [(''a.txt'', Reg ((example_file ''abc'')\<lparr>st_size := 5\<rparr>))]))
     [Client (example_conn [RxData ''GET /a.txt HTTP/1.1''])] = (Some EXIT_FREAD_FAILED, [])"
proof -
  let ?tree = "Dir [(''a.txt'', Reg ((example_file ''abc'')\<lparr>st_size := 5\<rparr>))]"
  have f: "follow (root (scan (example_startup ?tree))) = Some ?tree"
    by (simp add: example_startup_def example_env_def)
  have v: "visited short_read (root_name (scan (example_startup ?tree))) ?tree"
    by (simp add: example_startup_def example_env_def short_read_def dotname_def fread_def
        example_file_def)
  from short_read_aborts_scan [OF f v, of example_config]
  have "isl (scan_web_root ''public_html'' (example_env ?tree))"
    by (simp add: example_config_def example_startup_def)
  moreover have "main example_config (example_startup ?tree)
     [Client (example_conn [RxData ''GET /a.txt HTTP/1.1''])] = (Some EXIT_FREAD_FAILED, [])"
    by (simp add: main_def example_config_def example_startup_def example_env_def
        scan_web_root_def scan_step_def scan_entry_def ftsent_def ftsent_file_def
        fts_child_path_def NAPPEND_def dotname_def
        route_of_def index_suffix_def blob_new_def fread_def example_file_def Let_def)
  ultimately show ?thesis by simp
qed

section \<open>Entries that are neither regular files nor directories\<close>

text \<open>
  An entry whose name starts with a dot and that is neither a regular file nor a
  directory: a device, socket or FIFO, an entry that \<open>stat\<close> fails on, a symbolic
  link, a directory that closes a cycle.
\<close>

definition dot_special :: "string \<Rightarrow> fsnode \<Rightarrow> bool" where
  "dot_special name node =
     (dotname name \<and>
      (case node of Reg f \<Rightarrow> False | Dir c \<Rightarrow> False | DirUnreadable \<Rightarrow> False | _ \<Rightarrow> True))"

lemma dot_special_fatal: "dot_special name node \<Longrightarrow> isl (scan_node bl path name node st)"
  by (cases node) (simp_all add: dot_special_def scan_step_simps)

text \<open>
  C10. When the walk comes to an entry that is neither a regular file nor a directory
  and whose name starts with a dot, \<open>scan_web_root\<close> ends in a fatal error and \<open>main\<close>
  accepts no connection. The \<open>switch\<close> on the entry's type comes first: \<open>FTS_DEFAULT\<close>
  and \<open>FTS_NS\<close> are fatal whatever the name, and in the case \<open>FTS_F\<close> the test of
  \<open>S_ISREG\<close> comes before the test of the name.
\<close>

theorem dot_special_aborts_scan:
  assumes "follow (root (scan env)) = Some node"
    and "visited dot_special (root_name (scan env)) node"
  shows "isl (scan_web_root (cfg_web_root cfg) (scan env)) \<and>
         fst (main cfg env evs) \<noteq> None \<and> snd (main cfg env evs) = [] \<and>
         (\<forall>bl path name st.
            scan_node bl path name Special st = Inl EXIT_FTS_UNUSUAL_FILE \<and>
            scan_node bl path name NoStat st = Inl EXIT_FTS_READ_FAILED) \<and>
         (\<forall>bl p st. fts_info p = FTS_F \<and> \<not> S_ISREG p \<longrightarrow>
            scan_entry bl p st = Inl EXIT_FTS_UNUSUAL_FILE)"
proof -
  have a: "isl (scan_web_root (cfg_web_root cfg) (scan env))"
    using assms dot_special_fatal by (rule scan_web_root_aborts)
  from main_scan_aborts [OF a] a show ?thesis
    by (simp add: scan_step_simps scan_entry_def)
qed

theorem dot_special_aborts_scan_witness:
  "isl (scan_web_root ''public_html''
          (example_env (Dir [(''a'', Dir [(''.fifo'', Special)]), (''b'', Reg (example_file ''b''))]))) \<and>
   scan_web_root ''public_html''
          (example_env (Dir [(''a'', Dir [(''.file'', Reg (example_file ''x''))]), (''b'', Reg (example_file ''b''))])) =
     Inr \<lparr>hash_table = \<lparr>entries = [(''/b'', \<lparr>Blob_length = 1, Blob_data = ''b''\<rparr>)], hcapacity = None\<rparr>,
          max_path_len_out = 2\<rparr>"
proof -
  let ?tree = "Dir [(''a'', Dir [(''.fifo'', Special)]), (''b'', Reg (example_file ''b''))]"
  have f: "follow (root (scan (example_startup ?tree))) = Some ?tree"
    by (simp add: example_startup_def example_env_def)
  have v: "visited dot_special (root_name (scan (example_startup ?tree))) ?tree"
    by (simp add: example_startup_def example_env_def dot_special_def dotname_def)
  from dot_special_aborts_scan [OF f v, of example_config]
  have "isl (scan_web_root ''public_html'' (example_env ?tree))"
    by (simp add: example_config_def example_startup_def)
  moreover have "scan_web_root ''public_html''
          (example_env (Dir [(''a'', Dir [(''.file'', Reg (example_file ''x''))]), (''b'', Reg (example_file ''b''))])) =
     Inr \<lparr>hash_table = \<lparr>entries = [(''/b'', \<lparr>Blob_length = 1, Blob_data = ''b''\<rparr>)], hcapacity = None\<rparr>,
          max_path_len_out = 2\<rparr>"
    by (simp add: example_env_def scan_web_root_def scan_step_def scan_entry_def ftsent_def
        ftsent_file_def fts_child_path_def NAPPEND_def dotname_def route_of_def index_suffix_def
        blob_new_def fread_def
        example_file_def hsearch_ENTER_def Let_def)
  ultimately show ?thesis by simp
qed

section \<open>Symbolic links\<close>

definition is_symlink :: "string \<Rightarrow> fsnode \<Rightarrow> bool" where
  "is_symlink name node = (case node of Symlink t \<Rightarrow> True | _ \<Rightarrow> False)"

lemma is_symlink_fatal: "is_symlink name node \<Longrightarrow> isl (scan_node bl path name node st)"
  by (cases node) (simp_all add: is_symlink_def scan_step_simps)

text \<open>
  The scan meets a symbolic link: the root path is a link without a target, or the walk
  of what the root path leads to comes to a link.
\<close>

definition symlink_met :: "scan_env \<Rightarrow> bool" where
  "symlink_met env =
     (case follow (root env) of
        None \<Rightarrow> True
      | Some node \<Rightarrow> visited is_symlink (root_name env) node)"

text \<open>
  C3, as stated, fails where the root path itself is a symbolic link to a directory:
  \<open>FTS_COMFOLLOW\<close> makes the walker follow it, the scan succeeds and the files behind
  the link are routed.
\<close>

theorem root_symlink_followed:
  "root (example_env (Symlink (Some (Dir [(''index.html'', Reg (example_file ''hi''))])))) =
     Symlink (Some (Dir [(''index.html'', Reg (example_file ''hi''))])) \<and>
   scan_web_root ''public_html''
     (example_env (Symlink (Some (Dir [(''index.html'', Reg (example_file ''hi''))])))) =
     Inr \<lparr>hash_table = \<lparr>entries = [(''/'', \<lparr>Blob_length = 2, Blob_data = ''hi''\<rparr>)], hcapacity = None\<rparr>,
          max_path_len_out = 1\<rparr>"
  by (simp add: example_env_def scan_web_root_def scan_step_def scan_entry_def ftsent_def
      ftsent_file_def fts_child_path_def NAPPEND_def dotname_def route_of_def index_suffix_def
        blob_new_def fread_def
      example_file_def hsearch_ENTER_def Let_def)

text \<open>
  C3, amended. When the root path is a symbolic link that leads nowhere, or the walk
  comes to a symbolic link below the root (not under a directory whose name starts with
  a dot), \<open>scan_web_root\<close> ends in a fatal error and \<open>main\<close> accepts no connection. The
  pass of the loop for a link exits with \<open>EXIT_SYMLINK_IN_WEB_ROOT\<close>.
\<close>

theorem symlink_aborts_scan:
  assumes "symlink_met (scan env)"
  shows "isl (scan_web_root (cfg_web_root cfg) (scan env)) \<and>
         fst (main cfg env evs) \<noteq> None \<and> snd (main cfg env evs) = [] \<and>
         (\<forall>bl path name t st. scan_node bl path name (Symlink t) st = Inl EXIT_SYMLINK_IN_WEB_ROOT) \<and>
         (follow (root (scan env)) = None \<and> fts_open_ok (scan env) \<and> hcreate_ok (scan env) \<longrightarrow>
            scan_web_root (cfg_web_root cfg) (scan env) = Inl EXIT_SYMLINK_IN_WEB_ROOT)"
proof -
  have a: "isl (scan_web_root (cfg_web_root cfg) (scan env))"
  proof (cases "follow (root (scan env))")
    case None
    then show ?thesis
      by (simp add: scan_web_root_def scan_step_simps Let_def)
  next
    case (Some node)
    with assms have "visited is_symlink (root_name (scan env)) node"
      by (simp add: symlink_met_def)
    with Some show ?thesis using is_symlink_fatal by (rule scan_web_root_aborts)
  qed
  from main_scan_aborts [OF a] a show ?thesis
    by (simp add: scan_step_simps scan_web_root_def Let_def)
qed

theorem symlink_aborts_scan_witness:
  "isl (scan_web_root ''public_html''
          (example_env (Dir [(''docs'', Dir [(''link'', Symlink (Some (Reg (example_file ''x''))))])]))) \<and>
   scan_web_root ''public_html'' (example_env (Symlink None)) = Inl EXIT_SYMLINK_IN_WEB_ROOT"
proof -
  let ?tree = "Dir [(''docs'', Dir [(''link'', Symlink (Some (Reg (example_file ''x''))))])]"
  have v: "symlink_met (scan (example_startup ?tree))"
    by (simp add: symlink_met_def example_startup_def example_env_def is_symlink_def dotname_def)
  have w: "symlink_met (scan (example_startup (Symlink None)))"
    by (simp add: symlink_met_def example_startup_def example_env_def)
  from symlink_aborts_scan [OF v, of example_config] symlink_aborts_scan [OF w, of example_config]
  show ?thesis
    by (simp add: example_config_def example_startup_def example_env_def)
qed

section \<open>The table after a scan that succeeds\<close>

text \<open>
  The regular files that the scan opens, with their \<open>fts_path\<close>, in the order of the
  walk: those that the walk comes to and whose name does not start with a dot.
\<close>

fun files_read :: "string \<Rightarrow> string \<Rightarrow> fsnode \<Rightarrow> (string \<times> regfile) list"
  and files_read_dir :: "string \<Rightarrow> (string \<times> fsnode) list \<Rightarrow> (string \<times> regfile) list"
where
  "files_read path name (Reg f) = (if dotname name then [] else [(path, f)])"
| "files_read path name (Dir children) =
     (if dotname name then [] else files_read_dir path children)"
| "files_read path name node = []"
| "files_read_dir path [] = []"
| "files_read_dir path ((name, node) # rest) =
     files_read (fts_child_path path name) name node @ files_read_dir path rest"

text \<open>The passes of the loop for a list of regular files whose names do not start with a dot.\<close>

fun scan_files :: "nat \<Rightarrow> (string \<times> regfile) list \<Rightarrow> scan_state \<Rightarrow> tHTTPError + scan_state" where
  "scan_files bl [] st = Inr st"
| "scan_files bl ((path, f) # rest) st =
     (case scan_step bl (ftsent_file [] path f) st of
        Inl e \<Rightarrow> Inl e
      | Inr st1 \<Rightarrow> scan_files bl rest st1)"

text \<open>The blob that holds the first \<open>st_size\<close> bytes of a file.\<close>

definition blob_of :: "regfile \<Rightarrow> Blob" where
  "blob_of f = \<lparr>Blob_length = st_size f, Blob_data = take (st_size f) (content f)\<rparr>"

lemma scan_files_append:
  "scan_files bl (xs @ ys) st =
     (case scan_files bl xs st of Inl e \<Rightarrow> Inl e | Inr st1 \<Rightarrow> scan_files bl ys st1)"
  by (induction xs arbitrary: st) (auto split: sum.splits)

lemma scan_step_file_name:
  "\<not> dotname name \<Longrightarrow>
   scan_step bl (ftsent_file name path f) st = scan_step bl (ftsent_file [] path f) st"
  by (simp add: scan_step_def scan_entry_def ftsent_file_def dotname_def Let_def
      split: option.splits prod.splits)

lemma scan_step_dotfile:
  "dotname name \<Longrightarrow> scan_step bl (ftsent_file name path f) st = Inr st"
  by (simp add: scan_step_def scan_entry_def ftsent_file_def)

lemma scan_node_files:
  "scan_node bl path name node st = Inr st' \<Longrightarrow>
     scan_files bl (files_read path name node) st = Inr st'"
  "scan_dir bl path children st = Inr st' \<Longrightarrow>
     scan_files bl (files_read_dir path children) st = Inr st'"
proof (induction bl path name node st and bl path children st arbitrary: st' and st'
    rule: scan_node_scan_dir.induct)
  case (1 bl path name f st)
  then show ?case
    by (cases "dotname name") (simp_all add: scan_step_dotfile scan_step_file_name)
next
  case (2 bl path name children st)
  show ?case
  proof (cases "dotname name")
    case True
    with "2.prems" show ?thesis by (simp add: scan_step_simps)
  next
    case False
    with "2.prems" have "scan_dir bl path children st = Inr st'"
      by (simp add: scan_step_simps split: sum.splits)
    from "2.IH" [of "(st, False)" st False, OF _ _ _ this] False show ?thesis
      by (simp add: scan_step_simps)
  qed
next
  case (3 bl path name st)
  then show ?case by (cases "dotname name") (simp_all add: scan_step_simps)
next
  case (9 bl path name node rest st)
  from "9.prems" obtain st1 where
    a: "scan_node bl (fts_child_path path name) name node st = Inr st1"
    and b: "scan_dir bl path rest st1 = Inr st'"
    by (auto split: sum.splits)
  from "9.IH"(1) [OF a] "9.IH"(2) [OF a b] show ?case
    by (simp add: scan_files_append)
qed (simp_all add: scan_step_simps)

lemma scan_step_file_ok:
  assumes "scan_step bl (ftsent_file [] path f) st = Inr st'"
  shows "fopen_ok f" "malloc_ok f" "st_size f \<le> length (content f)"
    "max_path_len_out st' = max (max_path_len_out st) (length (route_of bl path))"
    "hsearch_ENTER (hash_table st) (route_of bl path) (blob_of f) = Some (hash_table st')"
  using assms
  by (auto simp: scan_step_def scan_entry_def ftsent_file_def dotname_def blob_new_def fread_def
      blob_of_def Let_def max_def min_def split: if_splits option.splits)

lemma hsearch_ENTER_Some:
  assumes "hsearch_ENTER t key blob = Some t'"
  shows "map_of (entries t') = map_of (entries t @ [(key, blob)])"
    and "set (entries t') \<subseteq> insert (key, blob) (set (entries t))"
    and "hcapacity t' = hcapacity t"
proof -
  show "map_of (entries t') = map_of (entries t @ [(key, blob)])"
  proof (cases "key \<in> fst ` set (entries t)")
    case True
    then have "key \<in> dom (map_of (entries t))" by (simp add: dom_map_of_conv_image_fst)
    then have "map_of (entries t @ [(key, blob)]) = map_of (entries t)"
      by (auto simp: map_add_def fun_eq_iff split: option.splits)
    with True assms show ?thesis by (simp add: hsearch_ENTER_def)
  next
    case False
    with assms show ?thesis by (auto simp: hsearch_ENTER_def split: if_splits)
  qed
  from assms show "set (entries t') \<subseteq> insert (key, blob) (set (entries t))"
    by (auto simp: hsearch_ENTER_def split: if_splits)
  from assms show "hcapacity t' = hcapacity t"
    by (auto simp: hsearch_ENTER_def split: if_splits)
qed

text \<open>The route and the blob of each file of a list.\<close>

definition routed :: "nat \<Rightarrow> (string \<times> regfile) list \<Rightarrow> (string \<times> Blob) list" where
  "routed bl xs = map (\<lambda>(p, f). (route_of bl p, blob_of f)) xs"

lemma scan_files_map_of:
  "scan_files bl xs st = Inr st' \<Longrightarrow>
   map_of (entries (hash_table st')) = map_of (entries (hash_table st) @ routed bl xs)"
proof (induction xs arbitrary: st)
  case Nil
  then show ?case by (simp add: routed_def)
next
  case (Cons x xs)
  obtain p f where x: "x = (p, f)" by (cases x)
  from Cons.prems x obtain st1 where
    a: "scan_step bl (ftsent_file [] p f) st = Inr st1" and b: "scan_files bl xs st1 = Inr st'"
    by (auto split: sum.splits)
  from hsearch_ENTER_Some(1) [OF scan_step_file_ok(5) [OF a]]
  have "map_of (entries (hash_table st1)) =
          map_of (entries (hash_table st) @ [(route_of bl p, blob_of f)])" .
  then have "map_of (entries (hash_table st1) @ routed bl xs) =
          map_of ((entries (hash_table st) @ [(route_of bl p, blob_of f)]) @ routed bl xs)"
    by (simp only: map_of_append)
  with Cons.IH [OF b] x show ?case by (simp add: routed_def)
qed

lemma scan_files_entries:
  "scan_files bl xs st = Inr st' \<Longrightarrow>
   set (entries (hash_table st')) \<subseteq> set (entries (hash_table st)) \<union> set (routed bl xs)"
proof (induction xs arbitrary: st)
  case Nil
  then show ?case by simp
next
  case (Cons x xs)
  obtain p f where x: "x = (p, f)" by (cases x)
  from Cons.prems x obtain st1 where
    a: "scan_step bl (ftsent_file [] p f) st = Inr st1" and b: "scan_files bl xs st1 = Inr st'"
    by (auto split: sum.splits)
  from hsearch_ENTER_Some(2) [OF scan_step_file_ok(5) [OF a]] Cons.IH [OF b] x
  show ?case by (auto simp: routed_def)
qed

lemma scan_files_max:
  "scan_files bl xs st = Inr st' \<Longrightarrow>
   max_path_len_out st \<le> max_path_len_out st' \<and>
   (\<forall>(p, f)\<in>set xs. length (route_of bl p) \<le> max_path_len_out st')"
proof (induction xs arbitrary: st)
  case Nil
  then show ?case by simp
next
  case (Cons x xs)
  obtain p f where x: "x = (p, f)" by (cases x)
  from Cons.prems x obtain st1 where
    a: "scan_step bl (ftsent_file [] p f) st = Inr st1" and b: "scan_files bl xs st1 = Inr st'"
    by (auto split: sum.splits)
  from scan_step_file_ok(4) [OF a] Cons.IH [OF b] x
  show ?case by auto
qed

lemma scan_web_root_files:
  assumes "scan_web_root path env = Inr st" and "follow (root env) = Some node"
  shows "scan_files (length path) (files_read path (root_name env) node)
           \<lparr>hash_table = \<lparr>entries = [], hcapacity = hcreate_room env\<rparr>, max_path_len_out = 0\<rparr> =
         Inr st"
  using assms
  by (auto simp: scan_web_root_def Let_def split: if_splits sum.splits intro: scan_node_files(1))

lemma follow_None_fatal:
  "follow (root env) = None \<Longrightarrow> isl (scan_web_root path env)"
  by (simp add: scan_web_root_def Let_def scan_step_simps)




section \<open>Dotfiles and dot-directories\<close>

text \<open>
  Every regular file of a tree, with its \<open>fts_path\<close> and the names on the way to it:
  that of the root as the walker reports it, those of the directories, and its own.
\<close>

fun all_files :: "string \<Rightarrow> string list \<Rightarrow> fsnode \<Rightarrow> (string \<times> string list \<times> regfile) list"
  and all_files_dir ::
    "string \<Rightarrow> string list \<Rightarrow> (string \<times> fsnode) list \<Rightarrow> (string \<times> string list \<times> regfile) list"
where
  "all_files path names (Reg f) = [(path, names, f)]"
| "all_files path names (Dir children) = all_files_dir path names children"
| "all_files path names node = []"
| "all_files_dir path names [] = []"
| "all_files_dir path names ((name, node) # rest) =
     all_files (fts_child_path path name) (names @ [name]) node @ all_files_dir path names rest"

text \<open>
  The tree without the regular files and directories whose name starts with a dot, and
  all that is below such a directory. The root stays.
\<close>

fun prune :: "fsnode \<Rightarrow> fsnode"
  and prune_dir :: "(string \<times> fsnode) list \<Rightarrow> (string \<times> fsnode) list"
where
  "prune (Dir children) = Dir (prune_dir children)"
| "prune node = node"
| "prune_dir [] = []"
| "prune_dir ((name, node) # rest) =
     (if dotname name \<and> (case node of Reg f \<Rightarrow> True | Dir c \<Rightarrow> True | DirUnreadable \<Rightarrow> True | _ \<Rightarrow> False)
      then prune_dir rest
      else (name, prune node) # prune_dir rest)"

lemma files_read_all_files:
  "(p, f) \<in> set (files_read path name node) \<Longrightarrow>
     \<exists>deeper. (p, anc @ name # deeper, f) \<in> set (all_files path (anc @ [name]) node) \<and>
              \<not> dotname name \<and> (\<forall>n\<in>set deeper. \<not> dotname n)"
  "(p, f) \<in> set (files_read_dir path children) \<Longrightarrow>
     \<exists>deeper. (p, anc @ deeper, f) \<in> set (all_files_dir path anc children) \<and>
              (\<forall>n\<in>set deeper. \<not> dotname n)"
proof (induction path name node and path children arbitrary: anc and anc
    rule: files_read_files_read_dir.induct)
  case (1 path name f)
  then show ?case by (auto split: if_splits)
next
  case (2 path name children)
  then have nd: "\<not> dotname name" and m: "(p, f) \<in> set (files_read_dir path children)"
    by (auto split: if_splits)
  from "2.IH" [OF nd m, of "anc @ [name]"] nd show ?case by auto
next
  case (5 path name node rest)
  from "5.prems" consider "(p, f) \<in> set (files_read (fts_child_path path name) name node)"
    | "(p, f) \<in> set (files_read_dir path rest)" by auto
  then show ?case
  proof cases
    case 1
    from "5.IH"(1) [OF 1, of anc] obtain deeper where
      "(p, anc @ name # deeper, f) \<in> set (all_files (fts_child_path path name) (anc @ [name]) node)"
      "\<not> dotname name" "\<forall>n\<in>set deeper. \<not> dotname n" by blast
    then show ?thesis by (intro exI [of _ "name # deeper"]) simp
  next
    case 2
    from "5.IH"(2) [OF 2, of anc] show ?thesis by auto
  qed
qed simp_all

lemma dot_entry_skipped:
  assumes "dotname name"
    and "case node of Reg f \<Rightarrow> True | Dir c \<Rightarrow> True | DirUnreadable \<Rightarrow> True | _ \<Rightarrow> False"
  shows "scan_node bl path name node st = Inr st"
  using assms by (cases node) (simp_all add: scan_step_dotfile scan_step_simps)

lemma scan_prune:
  "scan_node bl path name (prune node) st = scan_node bl path name node st"
  "scan_dir bl path (prune_dir children) st = scan_dir bl path children st"
proof (induction bl path name node st and bl path children st rule: scan_node_scan_dir.induct)
  case (2 bl path name children st)
  show ?case
  proof (cases "dotname name")
    case True
    then show ?thesis by (simp add: scan_step_simps)
  next
    case False
    from "2.IH" [of "(st, False)" st False] False
    have "scan_dir bl path (prune_dir children) st = scan_dir bl path children st"
      by (simp add: scan_step_simps)
    with False show ?thesis by (simp add: scan_step_simps)
  qed
next
  case (9 bl path name node rest st)
  show ?case
  proof (cases "dotname name \<and>
      (case node of Reg f \<Rightarrow> True | Dir c \<Rightarrow> True | DirUnreadable \<Rightarrow> True | _ \<Rightarrow> False)")
    case True
    then have s: "scan_node bl (fts_child_path path name) name node st = Inr st"
      by (simp add: dot_entry_skipped)
    from "9.IH"(2) [OF s] s True show ?thesis by simp
  next
    case False
    then have p: "prune_dir ((name, node) # rest) = (name, prune node) # prune_dir rest"
      by auto
    show ?thesis
    proof (cases "scan_node bl (fts_child_path path name) name node st")
      case (Inl e)
      with "9.IH"(1) show ?thesis unfolding p by simp
    next
      case (Inr st1)
      with "9.IH"(1) "9.IH"(2) [OF Inr] show ?thesis unfolding p by simp
    qed
  qed
qed simp_all

lemma follow_Some:
  "follow r = Some node \<Longrightarrow> follow node = Some node \<and> follow (prune node) = Some (prune node)"
  by (induction r rule: follow.induct) auto

text \<open>
  C5. The scan of a tree does what the scan of the tree without its dotfiles and
  dot-directories does: the same fatal error, or the same table. After a scan that
  succeeds, every entry of the table is the route and the blob of a regular file on
  whose way from the root no name starts with a dot, its own included.
\<close>

theorem dot_entries_excluded:
  assumes "follow (root env) = Some node"
  shows "scan_web_root path (env\<lparr>root := prune node\<rparr>) = scan_web_root path env \<and>
         (\<forall>st. scan_web_root path env = Inr st \<longrightarrow>
            (\<forall>(key, blob)\<in>set (entries (hash_table st)).
               \<exists>(p, names, f)\<in>set (all_files path [root_name env] node).
                  key = route_of (length path) p \<and> blob = blob_of f \<and>
                  (\<forall>n\<in>set names. \<not> dotname n)))"
proof -
  from follow_Some [OF assms]
  have "scan_web_root path (env\<lparr>root := prune node\<rparr>) = scan_web_root path env"
    by (simp add: scan_web_root_def Let_def assms scan_prune split: sum.splits)
  moreover have "\<exists>(p, names, f)\<in>set (all_files path [root_name env] node).
                  key = route_of (length path) p \<and> blob = blob_of f \<and>
                  (\<forall>n\<in>set names. \<not> dotname n)"
    if ok: "scan_web_root path env = Inr st" and m: "(key, blob) \<in> set (entries (hash_table st))"
    for st key blob
  proof -
    from scan_files_entries [OF scan_web_root_files [OF ok assms]] m
    obtain p f where pf: "(p, f) \<in> set (files_read path (root_name env) node)"
      and key: "key = route_of (length path) p" "blob = blob_of f"
      by (auto simp: routed_def)
    from files_read_all_files(1) [OF pf, of "[]"] obtain deeper where
      d: "(p, root_name env # deeper, f) \<in> set (all_files path [root_name env] node)"
         "\<not> dotname (root_name env)" "\<forall>n\<in>set deeper. \<not> dotname n"
      by auto
    show ?thesis
      by (rule bexI [OF _ d(1)]) (simp add: key d)
  qed
  ultimately show ?thesis by blast
qed

theorem dot_entries_excluded_witness:
  "scan_web_root ''public_html''
     (example_env (Dir [(''a'', Dir [(''.git'', Dir [(''config'', Reg (example_file ''c''))]),
                                      (''.hidden'', Reg (example_file ''h'')),
                                      (''b.txt'', Reg (example_file ''b''))])])) =
   scan_web_root ''public_html''
     (example_env (Dir [(''a'', Dir [(''b.txt'', Reg (example_file ''b''))])])) \<and>
   scan_web_root ''public_html''
     (example_env (Dir [(''a'', Dir [(''b.txt'', Reg (example_file ''b''))])])) =
     Inr \<lparr>hash_table =
            \<lparr>entries = [(''/a/b.txt'', \<lparr>Blob_length = 1, Blob_data = ''b''\<rparr>)],
             hcapacity = None\<rparr>,
          max_path_len_out = 8\<rparr>"
proof -
  let ?tree = "Dir [(''a'', Dir [(''.git'', Dir [(''config'', Reg (example_file ''c''))]),
                                  (''.hidden'', Reg (example_file ''h'')),
                                  (''b.txt'', Reg (example_file ''b''))])]"
  have f: "follow (root (example_env ?tree)) = Some ?tree"
    by (simp add: example_env_def)
  have e: "(example_env ?tree)\<lparr>root := prune ?tree\<rparr> =
           example_env (Dir [(''a'', Dir [(''b.txt'', Reg (example_file ''b''))])])"
    by (simp add: example_env_def dotname_def)
  have s: "scan_web_root ''public_html''
     (example_env (Dir [(''a'', Dir [(''b.txt'', Reg (example_file ''b''))])])) =
     Inr \<lparr>hash_table =
            \<lparr>entries = [(''/a/b.txt'', \<lparr>Blob_length = 1, Blob_data = ''b''\<rparr>)],
             hcapacity = None\<rparr>,
          max_path_len_out = 8\<rparr>"
    by (simp add: example_env_def scan_web_root_def scan_step_def scan_entry_def ftsent_def
        ftsent_file_def fts_child_path_def NAPPEND_def dotname_def route_of_def index_suffix_def
        blob_new_def fread_def
        example_file_def hsearch_ENTER_def Let_def)
  from dot_entries_excluded [OF f, of "''public_html''"] e s show ?thesis by simp
qed

section \<open>The paths of the walk\<close>

text \<open>
  A tree as a file system has it: the names in one directory differ from each other,
  and a name is not empty and has no slash and no NUL in it.
\<close>

fun wf_node :: "fsnode \<Rightarrow> bool"
  and wf_dir :: "(string \<times> fsnode) list \<Rightarrow> bool"
where
  "wf_node (Dir children) = wf_dir children"
| "wf_node node = True"
| "wf_dir [] = True"
| "wf_dir ((name, node) # rest) =
     (name \<noteq> [] \<and> CHR ''/'' \<notin> set name \<and> NUL \<notin> set name \<and> name \<notin> fst ` set rest \<and>
      wf_node node \<and> wf_dir rest)"

text \<open>
  The part of a directory's path that the paths of its entries start with: the path
  itself, or the path without the slash at its end.
\<close>

definition stem :: "string \<Rightarrow> string" where
  "stem path = take (NAPPEND path) path"

lemma fts_child_path_stem: "fts_child_path path name = stem path @ CHR ''/'' # name"
  by (simp add: fts_child_path_def stem_def)

lemma stem_plain: "path = [] \<or> last path \<noteq> CHR ''/'' \<Longrightarrow> stem path = path"
  by (auto simp: stem_def NAPPEND_def)

lemma stem_slash:
  assumes "path \<noteq> []" and "last path = CHR ''/''"
  shows "path = stem path @ ''/''"
proof -
  from assms have "stem path = butlast path"
    by (simp add: stem_def NAPPEND_def butlast_conv_take)
  with append_butlast_last_id [OF assms(1)] assms(2) show ?thesis by simp
qed

lemma stem_child:
  assumes "name \<noteq> []" and "CHR ''/'' \<notin> set name"
  shows "stem (fts_child_path path name) = fts_child_path path name"
proof -
  from assms have "last name \<noteq> CHR ''/''" by (metis last_in_set)
  with assms(1) have "last (fts_child_path path name) \<noteq> CHR ''/''"
    by (simp add: fts_child_path_stem)
  then show ?thesis by (rule stem_plain [OF disjI2])
qed

lemma first_component:
  assumes "CHR ''/'' \<notin> set n" and "s = [] \<or> hd s = CHR ''/''"
  shows "takeWhile (\<lambda>c. c \<noteq> CHR ''/'') (n @ s) = n"
proof -
  from assms(2) have "takeWhile (\<lambda>c. c \<noteq> CHR ''/'') s = []" by (cases s) auto
  moreover from assms(1) have "takeWhile (\<lambda>c. c \<noteq> CHR ''/'') (n @ s) =
      n @ takeWhile (\<lambda>c. c \<noteq> CHR ''/'') s"
    by (intro takeWhile_append2) auto
  ultimately show ?thesis by simp
qed

text \<open>
  \<open>below d names p\<close>: \<open>p\<close> is \<open>d\<close>, a slash, one of \<open>names\<close>, and then nothing or a
  slash and more, with no NUL after \<open>d\<close>.
\<close>

definition below :: "string \<Rightarrow> string set \<Rightarrow> string \<Rightarrow> bool" where
  "below d names p =
     (\<exists>n s. p = d @ CHR ''/'' # n @ s \<and> n \<in> names \<and> n \<noteq> [] \<and> CHR ''/'' \<notin> set n \<and>
            (s = [] \<or> hd s = CHR ''/'') \<and> NUL \<notin> set (n @ s))"

lemma below_component:
  assumes "below d names p"
  shows "takeWhile (\<lambda>c. c \<noteq> CHR ''/'') (drop (Suc (length d)) p) \<in> names"
proof -
  from assms obtain n s where p: "p = d @ CHR ''/'' # n @ s" and n: "n \<in> names"
    "CHR ''/'' \<notin> set n" and s: "s = [] \<or> hd s = CHR ''/''" by (auto simp: below_def)
  from first_component [OF n(2) s] p n(1) show ?thesis by simp
qed

lemma below_extend:
  assumes "below d names p"
  shows "takeWhile (\<lambda>c. c \<noteq> CHR ''/'') (drop (Suc (length d)) (p @ CHR ''/'' # t)) =
         takeWhile (\<lambda>c. c \<noteq> CHR ''/'') (drop (Suc (length d)) p)"
proof -
  from assms obtain n s where p: "p = d @ CHR ''/'' # n @ s" and n: "CHR ''/'' \<notin> set n"
    and s: "s = [] \<or> hd s = CHR ''/''" by (auto simp: below_def)
  have "s @ CHR ''/'' # t = [] \<or> hd (s @ CHR ''/'' # t) = CHR ''/''"
    using s by (cases s) auto
  from first_component [OF n this] first_component [OF n s] p show ?thesis by simp
qed

lemma below_apart:
  assumes "below d A p" and "below d B q" and "A \<inter> B = {}"
  shows "q \<noteq> p" and "q \<noteq> p @ CHR ''/'' # t"
proof -
  let ?c = "\<lambda>x. takeWhile (\<lambda>c. c \<noteq> CHR ''/'') (drop (Suc (length d)) x)"
  from below_component [OF assms(1)] below_component [OF assms(2)] assms(3)
  have ne: "?c p \<noteq> ?c q" by auto
  then show "q \<noteq> p" by auto
  from below_extend [OF assms(1), of t] ne show "q \<noteq> p @ CHR ''/'' # t" by auto
qed

lemma below_child:
  assumes "name \<noteq> []" and "CHR ''/'' \<notin> set name" and "NUL \<notin> set name"
    and "p = fts_child_path path name \<or> below (fts_child_path path name) names p"
  shows "below (stem path) {name} p"
proof -
  from assms(4) have "\<exists>s. p = stem path @ CHR ''/'' # name @ s \<and> (s = [] \<or> hd s = CHR ''/'') \<and>
      NUL \<notin> set s"
  proof
    assume "p = fts_child_path path name"
    then show ?thesis by (simp add: fts_child_path_stem)
  next
    assume "below (fts_child_path path name) names p"
    then obtain n s where "p = fts_child_path path name @ CHR ''/'' # n @ s" "NUL \<notin> set (n @ s)"
      by (auto simp: below_def)
    then have "p = stem path @ CHR ''/'' # name @ (CHR ''/'' # n @ s) \<and>
        hd (CHR ''/'' # n @ s) = CHR ''/'' \<and> NUL \<notin> set (CHR ''/'' # n @ s)"
      by (simp add: fts_child_path_stem NUL_def)
    then show ?thesis by blast
  qed
  with assms(1-3) show ?thesis by (auto simp: below_def)
qed

lemma files_read_below:
  "wf_node node \<Longrightarrow> (p, f) \<in> set (files_read path name node) \<Longrightarrow>
     (\<exists>g. node = Reg g \<and> p = path) \<or> (\<exists>c. node = Dir c \<and> below (stem path) (fst ` set c) p)"
  "wf_dir children \<Longrightarrow> (p, f) \<in> set (files_read_dir path children) \<Longrightarrow>
     below (stem path) (fst ` set children) p"
proof (induction path name node and path children rule: files_read_files_read_dir.induct)
  case (1 path name f)
  then show ?case by (auto split: if_splits)
next
  case (2 path name children)
  then show ?case by (auto split: if_splits)
next
  case (5 path name node rest)
  from "5.prems"(1) have wf: "name \<noteq> []" "CHR ''/'' \<notin> set name" "NUL \<notin> set name"
    "wf_node node" "wf_dir rest" by simp_all
  from "5.prems"(2) consider "(p, f) \<in> set (files_read (fts_child_path path name) name node)"
    | "(p, f) \<in> set (files_read_dir path rest)" by auto
  then show ?case
  proof cases
    case 1
    from "5.IH"(1) [OF wf(4) 1]
    have "p = fts_child_path path name \<or> (\<exists>A. below (fts_child_path path name) A p)"
      unfolding stem_child [OF wf(1,2)] by blast
    then have "below (stem path) {name} p"
      using below_child [OF wf(1-3)] by blast
    then show ?thesis by (auto simp: below_def)
  next
    case 2
    from "5.IH"(2) [OF wf(5) 2] show ?thesis by (auto simp: below_def)
  qed
qed simp_all

lemma files_read_child_below:
  assumes "wf_node node" and "name \<noteq> []" and "CHR ''/'' \<notin> set name" and "NUL \<notin> set name"
    and "(p, f) \<in> set (files_read (fts_child_path path name) name node)"
  shows "below (stem path) {name} p"
proof -
  from files_read_below(1) [OF assms(1) assms(5)]
  have "p = fts_child_path path name \<or> (\<exists>A. below (fts_child_path path name) A p)"
    unfolding stem_child [OF assms(2,3)] by blast
  then show ?thesis using below_child [OF assms(2-4)] by blast
qed

lemma files_read_unique:
  "wf_node node \<Longrightarrow> (p, f1) \<in> set (files_read path name node) \<Longrightarrow>
     (q, f2) \<in> set (files_read path name node) \<Longrightarrow> q = p \<or> (\<exists>t. q = p @ CHR ''/'' # t) \<Longrightarrow>
     q = p \<and> f1 = f2"
  "wf_dir children \<Longrightarrow> (p, f1) \<in> set (files_read_dir path children) \<Longrightarrow>
     (q, f2) \<in> set (files_read_dir path children) \<Longrightarrow> q = p \<or> (\<exists>t. q = p @ CHR ''/'' # t) \<Longrightarrow>
     q = p \<and> f1 = f2"
proof (induction path name node and path children rule: files_read_files_read_dir.induct)
  case (1 path name f)
  then show ?case by (auto split: if_splits)
next
  case (2 path name children)
  then show ?case by (auto split: if_splits)
next
  case (5 path name node rest)
  from "5.prems"(1) have wf: "name \<noteq> []" "CHR ''/'' \<notin> set name" "NUL \<notin> set name"
    "wf_node node" "wf_dir rest"
    and fresh: "{name} \<inter> fst ` set rest = {}" by simp_all
  let ?A = "set (files_read (fts_child_path path name) name node)"
  let ?B = "set (files_read_dir path rest)"
  from "5.prems"(2,3) consider
      (AA) "(p, f1) \<in> ?A" "(q, f2) \<in> ?A"
    | (BB) "(p, f1) \<in> ?B" "(q, f2) \<in> ?B"
    | (AB) "(p, f1) \<in> ?A" "(q, f2) \<in> ?B"
    | (BA) "(p, f1) \<in> ?B" "(q, f2) \<in> ?A" by auto
  then show ?case
  proof cases
    case AA
    from "5.IH"(1) [OF wf(4) AA "5.prems"(4)] show ?thesis .
  next
    case BB
    from "5.IH"(2) [OF wf(5) BB "5.prems"(4)] show ?thesis .
  next
    case AB
    note a = files_read_child_below [OF wf(4) wf(1) wf(2) wf(3) AB(1)]
    note b = files_read_below(2) [OF wf(5) AB(2)]
    from below_apart [OF a b fresh] "5.prems"(4) show ?thesis by blast
  next
    case BA
    note a = files_read_child_below [OF wf(4) wf(1) wf(2) wf(3) BA(2)]
    note b = files_read_below(2) [OF wf(5) BA(1)]
    from fresh have "fst ` set rest \<inter> {name} = {}" by auto
    from below_apart [OF b a this] "5.prems"(4) show ?thesis by blast
  qed
qed simp_all


lemma route_of_alt:
  "route_of bl p =
     (if length index_suffix \<le> length (drop bl p) \<and>
         drop (length (drop bl p) - length index_suffix) (drop bl p) = index_suffix
      then (if take (length (drop bl p) - length index_suffix) (drop bl p) = [] then ''/''
            else take (length (drop bl p) - length index_suffix) (drop bl p))
      else drop bl p)"
  unfolding route_of_def Let_def ..

lemma suffix_split:
  assumes "length x \<le> length fp" and "drop (length fp - length x) fp = x"
  shows "fp = take (length fp - length x) fp @ x"
  using assms append_take_drop_id [of "length fp - length x" fp] by simp

lemma suffix_drop: "drop (length (d @ x) - length x) (d @ x) = x"
  by simp

lemma route_of_cases:
  "(\<exists>d. drop bl p = d @ index_suffix \<and> route_of bl p = (if d = [] then ''/'' else d)) \<or>
   (route_of bl p = drop bl p \<and> (\<forall>d. drop bl p \<noteq> d @ index_suffix))"
proof (cases "length index_suffix \<le> length (drop bl p) \<and>
         drop (length (drop bl p) - length index_suffix) (drop bl p) = index_suffix")
  case True
  then have "drop bl p = take (length (drop bl p) - length index_suffix) (drop bl p) @ index_suffix"
    by (intro suffix_split) simp_all
  moreover from True have "route_of bl p =
      (if take (length (drop bl p) - length index_suffix) (drop bl p) = [] then ''/''
       else take (length (drop bl p) - length index_suffix) (drop bl p))"
    by (subst route_of_alt) (simp only: if_True simp_thms)
  ultimately show ?thesis by blast
next
  case False
  have "drop bl p \<noteq> d @ index_suffix" for d
  proof
    assume e: "drop bl p = d @ index_suffix"
    have "length index_suffix \<le> length (d @ index_suffix)" by simp
    with suffix_drop [of d index_suffix] False show False unfolding e [symmetric] by simp
  qed
  moreover from False have "route_of bl p = drop bl p"
    by (subst route_of_alt) (simp only: if_False simp_thms)
  ultimately show ?thesis by blast
qed

lemma index_suffix_Cons: "index_suffix = CHR ''/'' # ''index.html''"
  by (simp add: index_suffix_def)

text \<open>
  What the scan keeps of a path below the root directory: the bytes after the root
  path. They are not empty, hold no NUL, are neither \<open>/\<close> nor \<open>//index.html\<close>, and start
  with a slash when the root path does not end in one.
\<close>

lemma below_drop:
  assumes "below (stem path) names p"
  shows "\<exists>x. p = path @ x \<and> x \<noteq> [] \<and> x \<noteq> ''/'' \<and> x \<noteq> CHR ''/'' # index_suffix \<and>
             NUL \<notin> set x \<and> (path = [] \<or> last path \<noteq> CHR ''/'' \<longrightarrow> hd x = CHR ''/'')"
proof -
  from assms obtain n s where p: "p = stem path @ CHR ''/'' # n @ s" and n: "n \<noteq> []"
    "CHR ''/'' \<notin> set n" and nul: "NUL \<notin> set (n @ s)" by (auto simp: below_def)
  from n have hn: "hd n \<noteq> CHR ''/''" by (cases n) auto
  show ?thesis
  proof (cases "path = [] \<or> last path \<noteq> CHR ''/''")
    case True
    from stem_plain [OF True] p have "p = path @ (CHR ''/'' # n @ s)" by simp
    moreover from n have "CHR ''/'' # n @ s \<noteq> ''/''" by simp
    moreover from n hn have "CHR ''/'' # n @ s \<noteq> CHR ''/'' # index_suffix"
      by (cases n) (auto simp: index_suffix_Cons)
    moreover from nul have "NUL \<notin> set (CHR ''/'' # n @ s)" by (simp add: NUL_def)
    ultimately show ?thesis by (intro exI [of _ "CHR ''/'' # n @ s"]) simp
  next
    case False
    then have f: "path \<noteq> []" "last path = CHR ''/''" by simp_all
    from stem_slash [OF f] p have "p = path @ (n @ s)"
      by (metis append.assoc append_Cons append_Nil)
    moreover from n have "n @ s \<noteq> []" by simp
    moreover from n hn have h: "hd (n @ s) \<noteq> CHR ''/''" by simp
    moreover from h have "n @ s \<noteq> ''/''" by auto
    moreover from h have "n @ s \<noteq> CHR ''/'' # index_suffix" by auto
    moreover note nul
    ultimately show ?thesis using False by (intro exI [of _ "n @ s"]) simp
  qed
qed

lemma route_of_eq:
  assumes r: "route_of (length pre) (pre @ x) = route_of (length pre) (pre @ y)"
    and x: "x \<noteq> ''/''" "x \<noteq> CHR ''/'' # index_suffix"
    and y: "y \<noteq> ''/''" "y \<noteq> CHR ''/'' # index_suffix"
  shows "x = y \<or> x = y @ index_suffix \<or> y = x @ index_suffix"
proof -
  from route_of_cases [of "length pre" "pre @ x"] route_of_cases [of "length pre" "pre @ y"]
  consider
      (ii) d1 d2 where "x = d1 @ index_suffix" "y = d2 @ index_suffix"
        "route_of (length pre) (pre @ x) = (if d1 = [] then ''/'' else d1)"
        "route_of (length pre) (pre @ y) = (if d2 = [] then ''/'' else d2)"
    | (ip) d1 where "x = d1 @ index_suffix"
        "route_of (length pre) (pre @ x) = (if d1 = [] then ''/'' else d1)"
        "route_of (length pre) (pre @ y) = y"
    | (pi) d2 where "y = d2 @ index_suffix"
        "route_of (length pre) (pre @ y) = (if d2 = [] then ''/'' else d2)"
        "route_of (length pre) (pre @ x) = x"
    | (pp) "route_of (length pre) (pre @ x) = x" "route_of (length pre) (pre @ y) = y"
    by auto
  then show ?thesis
  proof cases
    case ii
    from ii(1) x(2) have a: "d1 \<noteq> ''/''" by auto
    from ii(2) y(2) have b: "d2 \<noteq> ''/''" by auto
    from r ii(3,4) a b have "d1 = d2" by (auto split: if_splits)
    with ii show ?thesis by simp
  next
    case ip
    with r y(1) have "d1 = y" by (auto split: if_splits)
    with ip show ?thesis by simp
  next
    case pi
    with r x(1) have "d2 = x" by (auto split: if_splits)
    with pi show ?thesis by simp
  next
    case pp
    with r show ?thesis by simp
  qed
qed

lemma route_unique:
  assumes wf: "wf_node node"
    and p: "(p, f1) \<in> set (files_read path name node)"
    and q: "(q, f2) \<in> set (files_read path name node)"
    and r: "route_of (length path) p = route_of (length path) q"
  shows "p = q \<and> f1 = f2"
proof (cases "\<exists>g. node = Reg g")
  case True
  with p q show ?thesis by (auto split: if_splits)
next
  case False
  with files_read_below(1) [OF wf p] obtain c where c: "node = Dir c"
    and bp: "below (stem path) (fst ` set c) p" by blast
  with files_read_below(1) [OF wf q] have bq: "below (stem path) (fst ` set c) q" by auto
  from below_drop [OF bp] obtain x where
    x: "p = path @ x" "x \<noteq> ''/''" "x \<noteq> CHR ''/'' # index_suffix" by blast
  from below_drop [OF bq] obtain y where
    y: "q = path @ y" "y \<noteq> ''/''" "y \<noteq> CHR ''/'' # index_suffix" by blast
  from route_of_eq [OF r [unfolded x(1) y(1)] x(2,3) y(2,3)]
  have "p = q \<or> p = q @ CHR ''/'' # ''index.html'' \<or> q = p @ CHR ''/'' # ''index.html''"
    unfolding x(1) y(1) index_suffix_Cons by auto
  then consider "q = p" | "\<exists>t. p = q @ CHR ''/'' # t" | "\<exists>t. q = p @ CHR ''/'' # t"
    by blast
  then show ?thesis
  proof cases
    case 1
    with files_read_unique(1) [OF wf p q] show ?thesis by simp
  next
    case 2
    with files_read_unique(1) [OF wf q p] show ?thesis by simp
  next
    case 3
    with files_read_unique(1) [OF wf p q] show ?thesis by simp
  qed
qed


section \<open>The form of the routes\<close>

lemma hd_prefix: "d \<noteq> [] \<Longrightarrow> hd (d @ s) = hd d"
  by (cases d) simp_all

lemma plain_root_route:
  assumes plain: "path = [] \<or> last path \<noteq> CHR ''/''"
    and wf: "wf_dir c"
    and mem: "(p, f) \<in> set (files_read path name (Dir c))"
  shows "route_of (length path) p \<noteq> []" and "hd (route_of (length path) p) = CHR ''/''"
    and "NUL \<notin> set (route_of (length path) p)"
proof -
  from files_read_below(1) [of "Dir c", OF _ mem] wf
  have "below (stem path) (fst ` set c) p" by simp
  from below_drop [OF this] plain obtain x where
    x: "p = path @ x" "x \<noteq> []" "NUL \<notin> set x" "hd x = CHR ''/''" by blast
  from route_of_cases [of "length path" p] x(1)
  consider d where "x = d @ index_suffix" "route_of (length path) p = (if d = [] then ''/'' else d)"
    | "route_of (length path) p = x" by auto
  then have "route_of (length path) p \<noteq> [] \<and> hd (route_of (length path) p) = CHR ''/'' \<and>
      NUL \<notin> set (route_of (length path) p)"
  proof cases
    case 1
    show ?thesis
    proof (cases "d = []")
      case True
      with 1 show ?thesis by (simp add: NUL_def)
    next
      case False
      with 1 x(3,4) hd_prefix [OF False, of index_suffix] show ?thesis by auto
    qed
  next
    case 2
    with x show ?thesis by simp
  qed
  then show "route_of (length path) p \<noteq> []" and "hd (route_of (length path) p) = CHR ''/''"
    and "NUL \<notin> set (route_of (length path) p)" by simp_all
qed

text \<open>The definitions that evaluate a scan of an example tree.\<close>

lemmas scan_eval = example_env_def scan_web_root_def scan_step_def scan_entry_def ftsent_def
  ftsent_file_def fts_child_path_def NAPPEND_def dotname_def route_of_def index_suffix_def
  blob_new_def fread_def example_file_def hsearch_ENTER_def Let_def

text \<open>
  C9. The root path \<open>public_html/\<close>, written with a slash at its end, on a directory
  with the files \<open>a.txt\<close> and \<open>index.html\<close> and the directory \<open>docs\<close> with its own
  \<open>index.html\<close>: the walker reports \<open>public_html/a.txt\<close>, \<open>public_html/index.html\<close> and
  \<open>public_html/docs/index.html\<close>, the scan cuts off the 12 bytes of the root path, and
  the keys of the table are \<open>a.txt\<close>, \<open>index.html\<close> and \<open>docs\<close>: none begins with a
  slash, and the \<open>index.html\<close> of the root is not at \<open>/\<close>. The root path \<open>/\<close> gives the
  key \<open>a.txt\<close> in the same way. The comment in main.c at lines 252 to 254 says of this
  cut that a slash at the end of the base path does not break it.
\<close>

theorem trailing_slash_root_routes:
  "scan_web_root ''public_html/''
     (example_env (Dir [(''a.txt'', Reg (example_file ''a'')),
                        (''index.html'', Reg (example_file ''hi'')),
                        (''docs'', Dir [(''index.html'', Reg (example_file ''d''))])])) =
     Inr \<lparr>hash_table =
            \<lparr>entries = [(''a.txt'', \<lparr>Blob_length = 1, Blob_data = ''a''\<rparr>),
                         (''index.html'', \<lparr>Blob_length = 2, Blob_data = ''hi''\<rparr>),
                         (''docs'', \<lparr>Blob_length = 1, Blob_data = ''d''\<rparr>)],
             hcapacity = None\<rparr>,
          max_path_len_out = 10\<rparr> \<and>
   scan_web_root ''/''
     ((example_env (Dir [(''a.txt'', Reg (example_file ''a''))]))\<lparr>root_name := ''/''\<rparr>) =
     Inr \<lparr>hash_table =
            \<lparr>entries = [(''a.txt'', \<lparr>Blob_length = 1, Blob_data = ''a''\<rparr>)], hcapacity = None\<rparr>,
          max_path_len_out = 5\<rparr>"
  by (simp add: scan_eval)

section \<open>Entering a route\<close>








section \<open>The files that a scan has read\<close>

lemma all_files_names:
  "(p, names, f) \<in> set (all_files path ns node) \<Longrightarrow> \<exists>d. names = ns @ d"
  "(p, names, f) \<in> set (all_files_dir path ns children) \<Longrightarrow> \<exists>d. names = ns @ d"
  by (induction path ns node and path ns children rule: all_files_all_files_dir.induct) auto

lemma all_files_files_read:
  "(p, names, f) \<in> set (all_files path ns node) \<Longrightarrow> \<forall>n\<in>set names. \<not> dotname n \<Longrightarrow>
     ns \<noteq> [] \<Longrightarrow> (p, f) \<in> set (files_read path (last ns) node)"
  "(p, names, f) \<in> set (all_files_dir path ns children) \<Longrightarrow> \<forall>n\<in>set names. \<not> dotname n \<Longrightarrow>
     (p, f) \<in> set (files_read_dir path children)"
proof (induction path ns node and path ns children rule: all_files_all_files_dir.induct)
  case (1 path ns f')
  then have "\<not> dotname (last ns)" by auto
  with "1.prems" show ?case by simp
next
  case (2 path ns children)
  from "2.prems"(1) have m: "(p, names, f) \<in> set (all_files_dir path ns children)" by simp
  from all_files_names(2) [OF m] "2.prems"(2,3) have "\<not> dotname (last ns)" by auto
  with "2.IH" [OF m "2.prems"(2)] show ?case by simp
next
  case (5 path ns name node rest)
  from "5.prems"(1) consider
      "(p, names, f) \<in> set (all_files (fts_child_path path name) (ns @ [name]) node)"
    | "(p, names, f) \<in> set (all_files_dir path ns rest)" by auto
  then show ?case
  proof cases
    case 1
    from "5.IH"(1) [OF 1 "5.prems"(2)] show ?thesis by simp
  next
    case 2
    from "5.IH"(2) [OF 2 "5.prems"(2)] show ?thesis by simp
  qed
qed simp_all

lemma map_of_unique:
  assumes "(k, v) \<in> set xs" and "\<And>v'. (k, v') \<in> set xs \<Longrightarrow> v' = v"
  shows "map_of xs k = Some v"
proof -
  from weak_map_of_SomeI [OF assms(1)] obtain x where x: "map_of xs k = Some x" by blast
  from assms(2) [OF map_of_SomeD [OF x]] x show ?thesis by simp
qed

lemma scan_files_read_full:
  "scan_files bl xs st = Inr st' \<Longrightarrow> \<forall>(p, f)\<in>set xs. st_size f \<le> length (content f)"
proof (induction xs arbitrary: st)
  case Nil
  then show ?case by simp
next
  case (Cons x xs)
  obtain p f where x: "x = (p, f)" by (cases x)
  from Cons.prems x obtain st1 where
    a: "scan_step bl (ftsent_file [] p f) st = Inr st1" and b: "scan_files bl xs st1 = Inr st'"
    by (auto split: sum.splits)
  from scan_step_file_ok(3) [OF a] Cons.IH [OF b] x show ?case by simp
qed

lemma scan_finds_file:
  assumes scan: "scan_web_root path env = Inr st"
    and root: "follow (root env) = Some node" and wf: "wf_node node"
    and mem: "(p, f) \<in> set (files_read path (root_name env) node)"
  shows "hsearch_FIND (hash_table st) (route_of (length path) p) = Some (blob_of f)"
    and "st_size f \<le> length (content f)"
    and "length (route_of (length path) p) \<le> max_path_len_out st"
proof -
  note sf = scan_web_root_files [OF scan root]
  let ?xs = "files_read path (root_name env) node"
  from scan_files_map_of [OF sf]
  have m: "map_of (entries (hash_table st)) = map_of (routed (length path) ?xs)" by simp
  have i: "(route_of (length path) p, blob_of f) \<in> set (routed (length path) ?xs)"
    using mem by (force simp: routed_def)
  have u: "v' = blob_of f" if "(route_of (length path) p, v') \<in> set (routed (length path) ?xs)" for v'
  proof -
    from that obtain q g where q: "(q, g) \<in> set ?xs"
      and e: "route_of (length path) p = route_of (length path) q" "v' = blob_of g"
      by (auto simp: routed_def)
    from route_unique [OF wf mem q e(1)] e(2) show ?thesis by simp
  qed
  from map_of_unique [OF i u] m
  show "hsearch_FIND (hash_table st) (route_of (length path) p) = Some (blob_of f)"
    by (simp add: hsearch_FIND_def)
  from scan_files_read_full [OF sf] mem show "st_size f \<le> length (content f)" by auto
  from scan_files_max [OF sf] mem show "length (route_of (length path) p) \<le> max_path_len_out st"
    by auto
qed


section \<open>The route of an index.html\<close>

lemma route_of_index:
  "route_of (length path) (path @ dir @ ''/index.html'') = (if dir = [] then ''/'' else dir)"
  by (simp add: route_of_def Let_def index_suffix_def)

text \<open>
  Every directory of a tree, with its \<open>fts_path\<close>, the names on the way to it (that of
  the root as the walker reports it, and its own), and its entries.
\<close>

fun all_dirs ::
    "string \<Rightarrow> string list \<Rightarrow> fsnode \<Rightarrow> (string \<times> string list \<times> (string \<times> fsnode) list) list"
  and all_dirs_dir ::
    "string \<Rightarrow> string list \<Rightarrow> (string \<times> fsnode) list \<Rightarrow>
       (string \<times> string list \<times> (string \<times> fsnode) list) list"
where
  "all_dirs path names (Dir children) = (path, names, children) # all_dirs_dir path names children"
| "all_dirs path names node = []"
| "all_dirs_dir path names [] = []"
| "all_dirs_dir path names ((name, node) # rest) =
     all_dirs (fts_child_path path name) (names @ [name]) node @ all_dirs_dir path names rest"

lemma all_files_dir_entry:
  "(n, Reg f) \<in> set cs \<Longrightarrow> (fts_child_path path n, ns @ [n], f) \<in> set (all_files_dir path ns cs)"
  by (induction cs) auto

lemma all_dirs_all_files:
  "(d, names, children) \<in> set (all_dirs path ns node) \<Longrightarrow> (n, Reg f) \<in> set children \<Longrightarrow>
     (fts_child_path d n, names @ [n], f) \<in> set (all_files path ns node)"
  "(d, names, children) \<in> set (all_dirs_dir path ns cs) \<Longrightarrow> (n, Reg f) \<in> set children \<Longrightarrow>
     (fts_child_path d n, names @ [n], f) \<in> set (all_files_dir path ns cs)"
proof (induction path ns node and path ns cs rule: all_dirs_all_dirs_dir.induct)
  case (1 path ns cs)
  from "1.prems"(1) consider "d = path" "names = ns" "children = cs"
    | "(d, names, children) \<in> set (all_dirs_dir path ns cs)" by auto
  then show ?case
  proof cases
    case 1
    with "1.prems"(2) all_files_dir_entry [of n f cs path ns] show ?thesis by simp
  next
    case 2
    from "1.IH" [OF 2 "1.prems"(2)] show ?thesis by simp
  qed
next
  case (4 path ns name node rest)
  from "4.prems"(1) consider
      "(d, names, children) \<in> set (all_dirs (fts_child_path path name) (ns @ [name]) node)"
    | "(d, names, children) \<in> set (all_dirs_dir path ns rest)" by auto
  then show ?case
  proof cases
    case 1
    from "4.IH"(1) [OF 1 "4.prems"(2)] show ?thesis by simp
  next
    case 2
    from "4.IH"(2) [OF 2 "4.prems"(2)] show ?thesis by simp
  qed
qed simp_all

lemma all_dirs_paths:
  "wf_node node \<Longrightarrow> stem path = path \<Longrightarrow> (d, names, children) \<in> set (all_dirs path ns node) \<Longrightarrow>
     stem d = d \<and> (\<exists>r. d = path @ r \<and> (r = [] \<or> hd r = CHR ''/'' \<and> last r \<noteq> CHR ''/''))"
  "wf_dir cs \<Longrightarrow> stem path = path \<Longrightarrow> (d, names, children) \<in> set (all_dirs_dir path ns cs) \<Longrightarrow>
     stem d = d \<and> (\<exists>r. d = path @ r \<and> r \<noteq> [] \<and> hd r = CHR ''/'' \<and> last r \<noteq> CHR ''/'')"
proof (induction path ns node and path ns cs rule: all_dirs_all_dirs_dir.induct)
  case (1 path ns cs)
  from "1.prems"(3) consider "d = path" | "(d, names, children) \<in> set (all_dirs_dir path ns cs)"
    by auto
  then show ?case
  proof cases
    case 1
    with "1.prems"(2) show ?thesis by simp
  next
    case 2
    from "1.IH" [OF _ "1.prems"(2) 2] "1.prems"(1) show ?thesis by auto
  qed
next
  case (4 path ns name node rest)
  from "4.prems"(1) have wf: "name \<noteq> []" "CHR ''/'' \<notin> set name" "wf_node node" "wf_dir rest"
    by simp_all
  from "4.prems"(3) consider
      "(d, names, children) \<in> set (all_dirs (fts_child_path path name) (ns @ [name]) node)"
    | "(d, names, children) \<in> set (all_dirs_dir path ns rest)" by auto
  then show ?case
  proof cases
    case 1
    from wf(1,2) have ln: "last name \<noteq> CHR ''/''" by (metis last_in_set)
    from "4.IH"(1) [OF wf(3) stem_child [OF wf(1,2)] 1] obtain r where
      s: "stem d = d" and r: "d = fts_child_path path name @ r"
        "r = [] \<or> hd r = CHR ''/'' \<and> last r \<noteq> CHR ''/''" by blast
    from r(1) "4.prems"(2) have "d = path @ (CHR ''/'' # name @ r)"
      by (simp add: fts_child_path_stem)
    moreover from r(2) ln wf(1) have "last (CHR ''/'' # name @ r) \<noteq> CHR ''/''"
      by (cases "r = []") auto
    ultimately show ?thesis using s by (intro conjI exI [of _ "CHR ''/'' # name @ r"]) simp_all
  next
    case 2
    from "4.IH"(2) [OF wf(4) "4.prems"(2) 2] show ?thesis .
  qed
qed simp_all

text \<open>
  C2, as stated, fails. The suffix that the scan cuts off is \<open>/index.html\<close> with its
  slash, so the route of \<open>dir/index.html\<close> is \<open>/dir\<close>, and the table has no entry for
  the path of the directory with a slash at its end. An \<open>index.html\<close> in a directory
  whose name starts with a dot gets no route at all, and none gets one when the scan
  ends in a fatal error, here for a symbolic link beside the directory. With the root
  path \<open>public_html/\<close> the \<open>index.html\<close> of the root has the route \<open>index.html\<close>.
\<close>

theorem index_route_without_slash:
  "scan_web_root ''public_html''
     (example_env (Dir [(''dir'', Dir [(''index.html'', Reg (example_file ''hi''))])])) =
     Inr \<lparr>hash_table =
            \<lparr>entries = [(''/dir'', \<lparr>Blob_length = 2, Blob_data = ''hi''\<rparr>)], hcapacity = None\<rparr>,
          max_path_len_out = 4\<rparr> \<and>
   hsearch_FIND
     \<lparr>entries = [(''/dir'', \<lparr>Blob_length = 2, Blob_data = ''hi''\<rparr>)], hcapacity = None\<rparr>
     ''/dir/'' = None \<and>
   hsearch_FIND
     \<lparr>entries = [(''/dir'', \<lparr>Blob_length = 2, Blob_data = ''hi''\<rparr>)], hcapacity = None\<rparr>
     ''dir/'' = None \<and>
   scan_web_root ''public_html''
     (example_env (Dir [(''.dir'', Dir [(''index.html'', Reg (example_file ''hi''))])])) =
     Inr \<lparr>hash_table = \<lparr>entries = [], hcapacity = None\<rparr>, max_path_len_out = 0\<rparr> \<and>
   scan_web_root ''public_html''
     (example_env (Dir [(''dir'', Dir [(''index.html'', Reg (example_file ''hi''))]),
                        (''link'', Symlink None)])) = Inl EXIT_SYMLINK_IN_WEB_ROOT \<and>
   scan_web_root ''public_html/''
     (example_env (Dir [(''index.html'', Reg (example_file ''hi''))])) =
     Inr \<lparr>hash_table =
            \<lparr>entries = [(''index.html'', \<lparr>Blob_length = 2, Blob_data = ''hi''\<rparr>)],
             hcapacity = None\<rparr>,
          max_path_len_out = 10\<rparr>"
  by (simp add: scan_eval hsearch_FIND_def)

text \<open>
  C2, amended. Take a scan that succeeds, with a root path that does not end in a
  slash, on a tree as a file system has it, and a directory of the tree, the root or
  one below it, on whose way from the root no name starts with a dot, with a regular
  file \<open>index.html\<close> in it. The path of the directory is the root path and then nothing
  (the root itself) or a slash and more, without a slash at its end. The table has an
  entry for what follows the root path, and for \<open>/\<close> when that is nothing, and it
  holds the blob of that \<open>index.html\<close>.
\<close>

theorem index_route_is_directory_path:
  assumes scan: "scan_web_root path env = Inr st"
    and root: "follow (root env) = Some node" and wf: "wf_node node"
    and plain: "path = [] \<or> last path \<noteq> CHR ''/''"
    and dir: "(d, names, children) \<in> set (all_dirs path [root_name env] node)"
    and nodot: "\<forall>n\<in>set names. \<not> dotname n"
    and idx: "(''index.html'', Reg f) \<in> set children"
  shows "take (length path) d = path \<and>
         hsearch_FIND (hash_table st)
           (if drop (length path) d = [] then ''/'' else drop (length path) d) =
           Some (blob_of f) \<and>
         (drop (length path) d = [] \<or>
          hd (drop (length path) d) = CHR ''/'' \<and> last (drop (length path) d) \<noteq> CHR ''/'')"
proof -
  from all_dirs_paths(1) [OF wf stem_plain [OF plain] dir] obtain r where
    s: "stem d = d" and r: "d = path @ r" "r = [] \<or> hd r = CHR ''/'' \<and> last r \<noteq> CHR ''/''"
    by blast
  from s r(1) have p: "fts_child_path d ''index.html'' = path @ r @ ''/index.html''"
    by (simp add: fts_child_path_stem)
  from nodot have nd: "\<forall>n\<in>set (names @ [''index.html'']). \<not> dotname n"
    by (simp add: dotname_def)
  from all_files_files_read(1) [OF all_dirs_all_files(1) [OF dir idx] nd]
  have "(fts_child_path d ''index.html'', f) \<in> set (files_read path (root_name env) node)"
    by simp
  from scan_finds_file(1) [OF scan root wf this]
  have "hsearch_FIND (hash_table st) (if r = [] then ''/'' else r) = Some (blob_of f)"
    unfolding p by (simp only: route_of_index)
  with r show ?thesis by (cases "r = []") simp_all
qed

theorem index_route_is_directory_path_witness:
  "hsearch_FIND
     \<lparr>entries = [(''/'', \<lparr>Blob_length = 2, Blob_data = ''hi''\<rparr>),
                 (''/docs/api'', \<lparr>Blob_length = 3, Blob_data = ''api''\<rparr>)],
      hcapacity = None\<rparr> ''/docs/api'' = Some (blob_of (example_file ''api'')) \<and>
   hsearch_FIND
     \<lparr>entries = [(''/'', \<lparr>Blob_length = 2, Blob_data = ''hi''\<rparr>),
                 (''/docs/api'', \<lparr>Blob_length = 3, Blob_data = ''api''\<rparr>)],
      hcapacity = None\<rparr> ''/'' = Some (blob_of (example_file ''hi''))"
proof -
  let ?api = "[(''index.html'', Reg (example_file ''api''))]"
  let ?top = "[(''index.html'', Reg (example_file ''hi'')), (''docs'', Dir [(''api'', Dir ?api)])]"
  let ?tree = "Dir ?top"
  let ?st = "\<lparr>hash_table =
               \<lparr>entries = [(''/'', \<lparr>Blob_length = 2, Blob_data = ''hi''\<rparr>),
                           (''/docs/api'', \<lparr>Blob_length = 3, Blob_data = ''api''\<rparr>)],
                hcapacity = None\<rparr>,
             max_path_len_out = 9\<rparr>"
  have scan: "scan_web_root ''public_html'' (example_env ?tree) = Inr ?st"
    by (simp add: scan_eval)
  have root: "follow (root (example_env ?tree)) = Some ?tree"
    by (simp add: example_env_def)
  have wf: "wf_node ?tree" by (simp add: NUL_def)
  have plain: "''public_html'' = [] \<or> last ''public_html'' \<noteq> CHR ''/''" by simp
  have d1: "(''public_html/docs/api'', [''public_html'', ''docs'', ''api''], ?api)
      \<in> set (all_dirs ''public_html'' [root_name (example_env ?tree)] ?tree)"
    by (simp add: example_env_def fts_child_path_def NAPPEND_def)
  have d0: "(''public_html'', [''public_html''], ?top)
      \<in> set (all_dirs ''public_html'' [root_name (example_env ?tree)] ?tree)"
    by (simp add: example_env_def)
  have n1: "\<forall>n\<in>set [''public_html'', ''docs'', ''api'']. \<not> dotname n"
    and n0: "\<forall>n\<in>set [''public_html'']. \<not> dotname n"
    by (simp_all add: dotname_def)
  have i1: "(''index.html'', Reg (example_file ''api'')) \<in> set ?api"
    and i0: "(''index.html'', Reg (example_file ''hi'')) \<in> set ?top" by simp_all
  from index_route_is_directory_path [OF scan root wf plain d1 n1 i1]
    index_route_is_directory_path [OF scan root wf plain d0 n0 i0]
  show ?thesis by simp
qed

section \<open>Serving the files of the web root\<close>

text \<open>The header has no NUL byte, so \<open>strlen(message_buf)\<close> is its length.\<close>

lemma digit_not_NUL: "d < 10 \<Longrightarrow> digit d \<noteq> NUL"
proof -
  assume "d < 10"
  then have "digit d \<in> set ''0123456789''"
    unfolding digit_def by (intro nth_mem) simp
  then show ?thesis by (auto simp: NUL_def)
qed

lemma dec_not_NUL: "NUL \<notin> set (dec n)"
proof (induction n rule: dec.induct)
  case (1 n)
  show ?case
  proof (cases "n < 10")
    case True
    with digit_not_NUL [of n] show ?thesis by (subst dec.simps) auto
  next
    case False
    have "n mod 10 < 10" by simp
    from digit_not_NUL [OF this] "1.IH" False show ?thesis
      by (subst dec.simps) auto
  qed
qed

lemma cstr_response_header:
  "NUL \<notin> set status \<Longrightarrow> cstr (response_header status n) = response_header status n"
  using dec_not_NUL [of n]
  by (auto simp: cstr_def response_header_def CRLF_def NUL_def takeWhile_eq_all_conv)

lemma child_serves_blob:
  assumes opts: "rcvtimeo_ok ns" "sndtimeo_ok ns" "asprintf_ok ns"
    and rd: "socket_read ns 5 (max_path_len loop_data + 5) = Inr (in_buf, ns1)"
    and req: "request_for get_path in_buf" "path_token get_path"
    and hit: "hsearch_FIND t get_path = Some blob"
    and len: "length (Blob_data blob) = Blob_length blob"
    and peer: "list_all tx_progress (tx ns)"
  shows "child_handle_client ns loop_data t =
           (transmitted ns @ response_header ''200 OK'' (Blob_length blob) @ Blob_data blob, EXIT_OK)"
proof -
  note p = request_for_parse [OF req]
  from socket_read_keeps [OF rd] peer opts have k: "list_all tx_progress (tx ns1)"
    "transmitted ns1 = transmitted ns" "asprintf_ok ns1" by simp_all
  let ?h = "response_header ''200 OK'' (Blob_length blob)"
  have c: "cstr ?h = ?h" by (rule cstr_response_header) (simp add: NUL_def)
  from socket_send_progress [OF k(1), of ?h] obtain ns2 where
    s2: "socket_send ns1 ?h (length ?h) = (ns2, None)" "transmitted ns2 = transmitted ns1 @ ?h"
      "list_all tx_progress (tx ns2)" by blast
  from socket_send_progress [OF s2(3), of "Blob_data blob"] obtain ns3 where
    s3: "socket_send ns2 (Blob_data blob) (length (Blob_data blob)) = (ns3, None)"
      "transmitted ns3 = transmitted ns2 @ Blob_data blob" by blast
  from req(2) have g: "get_path \<noteq> []" "hd get_path = CHR ''/''"
    by (simp_all add: path_token_def)
  show ?thesis
    unfolding child_handle_client_def
    using s3(1) by (simp add: opts rd p g hit c s2 s3(2) k len Let_def)
qed

text \<open>The definitions that evaluate a worker on an example connection.\<close>

lemmas child_eval = child_handle_client_def socket_read_def socket_read_loop.simps
  socket_send_def socket_send_loop.simps cstr_def strtok_r_def delimiters_def hsearch_FIND_def
  fallback_err_response_def response_header_def CRLF_def NUL_def example_conn_def Let_def

text \<open>
  C1, as stated, fails, in these ways.
  \<^item> A file whose name has a space in it: the scan enters the route \<open>/a b.txt\<close>, and the
    request \<open>GET /a b.txt\<close> followed by a space is answered with 404, because
    \<open>strtok_r\<close> ends the path at the first space, tab, CR or LF.
  \<^item> A web root with \<open>a.txt\<close> and \<open>docs/manual.txt\<close>, so that the worker reads up to 21
    bytes. A peer that sends \<open>GET /a.txt\<close> and a space and then waits for the answer
    gets none: the \<open>read\<close> for the rest fails and the worker exits with
    \<open>EXIT_SOCKET_READ_FAILED\<close>. A peer whose connection takes no bytes gets nothing
    and the worker exits with \<open>EXIT_SOCKET_SEND_FAILED\<close>. When a timeout of the socket
    cannot be set, or the header cannot be allocated, the worker exits with
    \<open>EXIT_SETSOCKOPT_FAILED\<close> or \<open>EXIT_MALLOC_FAILED\<close> and nothing is sent.
  \<^item> The root path \<open>public_html/\<close>: the route of \<open>a.txt\<close> is \<open>a.txt\<close>. The request for
    it, \<open>GET a.txt\<close>, ends the worker with \<open>EXIT_WEIRD_REQUEST_PATH\<close>, and
    \<open>GET /a.txt\<close> is answered with 404.
\<close>

theorem get_not_always_served:
  "scan_web_root ''public_html'' (example_env (Dir [(''a b.txt'', Reg (example_file ''x''))])) =
     Inr \<lparr>hash_table = \<lparr>entries = [(''/a b.txt'', \<lparr>Blob_length = 1, Blob_data = ''x''\<rparr>)],
                         hcapacity = None\<rparr>,
          max_path_len_out = 8\<rparr> \<and>
   child_handle_client (example_conn [RxData ''GET /a b.txt HTTP/1.1'', RxClose])
     \<lparr>rx_timeout = 1, tx_timeout = 1, notfound_route = ''/404.html'', max_path_len = 8\<rparr>
     \<lparr>entries = [(''/a b.txt'', \<lparr>Blob_length = 1, Blob_data = ''x''\<rparr>)], hcapacity = None\<rparr> =
     (fallback_err_response, EXIT_NOTFOUND_NOT_FOUND) \<and>
   scan_web_root ''public_html''
     (example_env (Dir [(''a.txt'', Reg (example_file ''hello'')),
                        (''docs'', Dir [(''manual.txt'', Reg (example_file ''m''))])])) =
     Inr \<lparr>hash_table =
            \<lparr>entries = [(''/a.txt'', \<lparr>Blob_length = 5, Blob_data = ''hello''\<rparr>),
                         (''/docs/manual.txt'', \<lparr>Blob_length = 1, Blob_data = ''m''\<rparr>)],
             hcapacity = None\<rparr>,
          max_path_len_out = 16\<rparr> \<and>
   child_handle_client (example_conn [RxData ''GET /a.txt ''])
     \<lparr>rx_timeout = 1, tx_timeout = 1, notfound_route = ''/404.html'', max_path_len = 16\<rparr>
     \<lparr>entries = [(''/a.txt'', \<lparr>Blob_length = 5, Blob_data = ''hello''\<rparr>),
                 (''/docs/manual.txt'', \<lparr>Blob_length = 1, Blob_data = ''m''\<rparr>)],
      hcapacity = None\<rparr> = ([], EXIT_SOCKET_READ_FAILED) \<and>
   child_handle_client
     ((example_conn [RxData ''GET /a.txt HTTP/1.1'', RxClose])\<lparr>tx := [TxError]\<rparr>)
     \<lparr>rx_timeout = 1, tx_timeout = 1, notfound_route = ''/404.html'', max_path_len = 16\<rparr>
     \<lparr>entries = [(''/a.txt'', \<lparr>Blob_length = 5, Blob_data = ''hello''\<rparr>),
                 (''/docs/manual.txt'', \<lparr>Blob_length = 1, Blob_data = ''m''\<rparr>)],
      hcapacity = None\<rparr> = ([], EXIT_SOCKET_SEND_FAILED) \<and>
   child_handle_client
     ((example_conn [RxData ''GET /a.txt HTTP/1.1'', RxClose])\<lparr>rcvtimeo_ok := False\<rparr>)
     \<lparr>rx_timeout = 1, tx_timeout = 1, notfound_route = ''/404.html'', max_path_len = 16\<rparr>
     \<lparr>entries = [(''/a.txt'', \<lparr>Blob_length = 5, Blob_data = ''hello''\<rparr>),
                 (''/docs/manual.txt'', \<lparr>Blob_length = 1, Blob_data = ''m''\<rparr>)],
      hcapacity = None\<rparr> = ([], EXIT_SETSOCKOPT_FAILED) \<and>
   child_handle_client
     ((example_conn [RxData ''GET /a.txt HTTP/1.1'', RxClose])\<lparr>asprintf_ok := False\<rparr>)
     \<lparr>rx_timeout = 1, tx_timeout = 1, notfound_route = ''/404.html'', max_path_len = 16\<rparr>
     \<lparr>entries = [(''/a.txt'', \<lparr>Blob_length = 5, Blob_data = ''hello''\<rparr>),
                 (''/docs/manual.txt'', \<lparr>Blob_length = 1, Blob_data = ''m''\<rparr>)],
      hcapacity = None\<rparr> = ([], EXIT_MALLOC_FAILED) \<and>
   scan_web_root ''public_html/'' (example_env (Dir [(''a.txt'', Reg (example_file ''hello''))])) =
     Inr \<lparr>hash_table = \<lparr>entries = [(''a.txt'', \<lparr>Blob_length = 5, Blob_data = ''hello''\<rparr>)],
                         hcapacity = None\<rparr>,
          max_path_len_out = 5\<rparr> \<and>
   child_handle_client (example_conn [RxData ''GET a.txt HTTP/1.1'', RxClose])
     \<lparr>rx_timeout = 1, tx_timeout = 1, notfound_route = ''/404.html'', max_path_len = 5\<rparr>
     \<lparr>entries = [(''a.txt'', \<lparr>Blob_length = 5, Blob_data = ''hello''\<rparr>)], hcapacity = None\<rparr> =
     ([], EXIT_WEIRD_REQUEST_PATH) \<and>
   child_handle_client (example_conn [RxData ''GET /a.txt HTTP/1.1'', RxClose])
     \<lparr>rx_timeout = 1, tx_timeout = 1, notfound_route = ''/404.html'', max_path_len = 5\<rparr>
     \<lparr>entries = [(''a.txt'', \<lparr>Blob_length = 5, Blob_data = ''hello''\<rparr>)], hcapacity = None\<rparr> =
     (fallback_err_response, EXIT_NOTFOUND_NOT_FOUND)"
  by (simp add: scan_eval child_eval)

text \<open>
  C1, amended. Take a scan that succeeds, with a root path that does not end in a
  slash, on a root directory as a file system has it, and a regular file below it on
  whose way from the root no name starts with a dot and whose route holds no space,
  tab, CR or LF. Take a worker whose socket timeouts are set, that reads a request for
  that route (\<open>GET\<close>, a space, the route, and then the end of the input, a delimiter
  or NUL), whose header is allocated and whose peer takes what it is sent. It sends the
  status line \<open>HTTP/1.1 200 OK\<close>, a \<open>Content-Length\<close> that is the \<open>st_size\<close> of the
  file in decimal, and the \<open>st_size\<close> bytes read from the file at scan time, and exits
  with \<open>EXIT_OK\<close>. The request with one delimiter after the route fits the bound of
  the read.
\<close>

theorem get_serves_file:
  assumes scan: "scan_web_root path env = Inr st"
    and plain: "path = [] \<or> last path \<noteq> CHR ''/''"
    and root: "follow (root env) = Some (Dir children)" and wf: "wf_dir children"
    and mem: "(p, names, f) \<in> set (all_files path [root_name env] (Dir children))"
    and nodot: "\<forall>n\<in>set names. \<not> dotname n"
    and nodelim: "\<forall>c\<in>set (route_of (length path) p). c \<notin> delimiters"
    and ld: "max_path_len loop_data = max_path_len_out st"
    and opts: "rcvtimeo_ok ns" "sndtimeo_ok ns" "asprintf_ok ns"
    and rd: "socket_read ns 5 (max_path_len loop_data + 5) = Inr (in_buf, ns1)"
    and req: "request_for (route_of (length path) p) in_buf"
    and peer: "list_all tx_progress (tx ns)"
  shows "child_handle_client ns loop_data (hash_table st) =
           (transmitted ns @ ''HTTP/1.1 200 OK'' @ CRLF @ ''Content-Length: '' @ dec (st_size f) @
              CRLF @ CRLF @ take (st_size f) (content f), EXIT_OK) \<and>
         length (take (st_size f) (content f)) = st_size f \<and>
         length (''GET '' @ route_of (length path) p @ '' '') \<le> max_path_len loop_data + 5"
proof -
  from all_files_files_read(1) [OF mem nodot]
  have fr: "(p, f) \<in> set (files_read path (root_name env) (Dir children))" by simp
  from wf have wfn: "wf_node (Dir children)" by simp
  note s = scan_finds_file [OF scan root wfn fr]
  from plain_root_route [OF plain wf fr] nodelim
  have tok: "path_token (route_of (length path) p)"
    unfolding path_token_def by blast
  from s(2) have len: "length (Blob_data (blob_of f)) = Blob_length (blob_of f)"
    by (simp add: blob_of_def)
  from child_serves_blob [OF opts rd req tok s(1) len peer] s(2) s(3) ld
  show ?thesis by (simp add: response_header_def blob_of_def)
qed

theorem get_serves_file_witness:
  "child_handle_client (example_conn [RxData ''GET /docs/a.txt HTTP/1.1'', RxClose])
     \<lparr>rx_timeout = 1, tx_timeout = 1, notfound_route = ''/404.html'', max_path_len = 11\<rparr>
     \<lparr>entries = [(''/'', \<lparr>Blob_length = 2, Blob_data = ''hi''\<rparr>),
                 (''/docs/a.txt'', \<lparr>Blob_length = 5, Blob_data = ''hello''\<rparr>)],
      hcapacity = None\<rparr> =
   (''HTTP/1.1 200 OK'' @ CRLF @ ''Content-Length: 5'' @ CRLF @ CRLF @ ''hello'', EXIT_OK)"
proof -
  let ?top = "[(''index.html'', Reg (example_file ''hi'')),
               (''docs'', Dir [(''a.txt'', Reg (example_file ''hello''))])]"
  let ?st = "\<lparr>hash_table =
               \<lparr>entries = [(''/'', \<lparr>Blob_length = 2, Blob_data = ''hi''\<rparr>),
                           (''/docs/a.txt'', \<lparr>Blob_length = 5, Blob_data = ''hello''\<rparr>)],
                hcapacity = None\<rparr>,
             max_path_len_out = 11\<rparr>"
  let ?ld = "\<lparr>rx_timeout = 1, tx_timeout = 1, notfound_route = ''/404.html'', max_path_len = 11\<rparr>"
  let ?ns = "example_conn [RxData ''GET /docs/a.txt HTTP/1.1'', RxClose]"
  have scan: "scan_web_root ''public_html'' (example_env (Dir ?top)) = Inr ?st"
    by (simp add: scan_eval)
  have plain: "''public_html'' = [] \<or> last ''public_html'' \<noteq> CHR ''/''" by simp
  have root: "follow (root (example_env (Dir ?top))) = Some (Dir ?top)"
    by (simp add: example_env_def)
  have wf: "wf_dir ?top" by (simp add: NUL_def)
  have mem: "(''public_html/docs/a.txt'', [''public_html'', ''docs'', ''a.txt''], example_file ''hello'')
      \<in> set (all_files ''public_html'' [root_name (example_env (Dir ?top))] (Dir ?top))"
    by (simp add: example_env_def fts_child_path_def NAPPEND_def)
  have nodot: "\<forall>n\<in>set [''public_html'', ''docs'', ''a.txt'']. \<not> dotname n"
    by (simp add: dotname_def)
  have r: "route_of (length ''public_html'') ''public_html/docs/a.txt'' = ''/docs/a.txt''"
    by (simp add: route_of_def index_suffix_def)
  have nodelim: "\<forall>c\<in>set (route_of (length ''public_html'') ''public_html/docs/a.txt'').
      c \<notin> delimiters"
    unfolding r by (simp add: delimiters_def)
  have ld: "max_path_len ?ld = max_path_len_out ?st" by simp
  have o: "rcvtimeo_ok ?ns" "sndtimeo_ok ?ns" "asprintf_ok ?ns" "list_all tx_progress (tx ?ns)"
    by (simp_all add: example_conn_def)
  have rd: "socket_read ?ns 5 (max_path_len ?ld + 5) =
              Inr (''GET /docs/a.txt '', example_conn [RxData ''HTTP/1.1'', RxClose])"
    by (simp add: socket_read_def socket_read_loop.simps example_conn_def)
  have req: "request_for (route_of (length ''public_html'') ''public_html/docs/a.txt'') ''GET /docs/a.txt ''"
    unfolding r by (simp add: request_for_def delimiters_def)
  have d: "dec (st_size (example_file ''hello'')) = ''5''"
    by (simp add: example_file_def dec.simps digit_def)
  note t = get_serves_file [OF scan plain root wf mem nodot nodelim ld o(1) o(2) o(3) rd req o(4)]
  from t [unfolded d] show ?thesis by (simp add: example_conn_def example_file_def)
qed

end
